theory Spec2Isabelle
  imports Main "HOL-Library.Word"
begin

section \<open>Vertices and their edge slices (vertex.go)\<close>

text \<open>
  A Go slice is a window on a backing array: a length and, from the slice's first
  element up to the capacity, the cells of the array. \<open>backing\<close> holds those cells
  (so the capacity is \<open>length (backing s)\<close>) and \<open>slen\<close> the length.  Slices made
  from one another share the cells, which is what \<open>removeOutEdge\<close> depends on.
\<close>

record 'a slice =
  backing :: "'a list"
  slen :: nat

definition elems :: "'a slice \<Rightarrow> 'a list" where
  "elems s = take (slen s) (backing s)"

definition mkSlice :: "'a list \<Rightarrow> 'a slice" where
  "mkSlice xs = \<lparr>backing = xs, slen = length xs\<rparr>"

datatype panic = SliceBounds

text \<open>
  \<open>append(v.Edges[:i], v.Edges[i+1:]...)\<close>.  \<open>v.Edges[:i]\<close> needs \<open>i \<le> cap\<close>,
  \<open>v.Edges[i+1:]\<close> needs \<open>i + 1 \<le> len\<close>; otherwise the runtime panics.  The
  result has \<open>len - 1\<close> elements, which fits the capacity, so \<open>append\<close> copies in
  place: the cells \<open>i+1 ..< len\<close> move one to the left and the cell \<open>len - 1\<close>
  keeps its old content.
\<close>

definition spliceOut :: "nat \<Rightarrow> 'a slice \<Rightarrow> panic + 'a slice" where
  "spliceOut i s =
     (if length (backing s) < i then Inl SliceBounds
      else if slen s < i + 1 then Inl SliceBounds
      else Inr \<lparr>backing = take i (backing s)
                   @ take (slen s - (i + 1)) (drop (i + 1) (backing s))
                   @ drop (slen s - 1) (backing s),
                 slen = slen s - 1\<rparr>)"

record 'e VertexBase =
  Id :: string
  Edges :: "'e slice"
  Active :: bool

text \<open>
  The body of \<open>for i, e := range v.Edges\<close>.  The range expression is evaluated once:
  the loop runs over the indices of the slice as it was on entry and reads cell \<open>i\<close>
  of the shared backing array at iteration \<open>i\<close>, while the body assigns \<open>v.Edges\<close>.
  \<open>Target\<close> is the method of the \<open>Edge\<close> interface, which is declared elsewhere.
\<close>

fun removeLoop :: "('e \<Rightarrow> string) \<Rightarrow> string \<Rightarrow> nat list \<Rightarrow> 'e slice \<Rightarrow> panic + 'e slice" where
  "removeLoop Target target [] s = Inr s"
| "removeLoop Target target (i # is) s =
     (if Target (backing s ! i) = target
      then (case spliceOut i s of
              Inl p \<Rightarrow> Inl p
            | Inr s' \<Rightarrow> removeLoop Target target is s')
      else removeLoop Target target is s)"

definition removeOutEdge :: "('e \<Rightarrow> string) \<Rightarrow> string \<Rightarrow> 'e VertexBase \<Rightarrow> panic + 'e VertexBase" where
  "removeOutEdge Target target v =
     (case removeLoop Target target [0..<slen (Edges v)] (Edges v) of
        Inl p \<Rightarrow> Inl p
      | Inr s \<Rightarrow> Inr (v\<lparr>Edges := s\<rparr>))"

definition OutEdges :: "'e VertexBase \<Rightarrow> 'e list" where
  "OutEdges v = elems (Edges v)"


section \<open>The master: data (master.go)\<close>

type_synonym uint64 = "64 word"

text \<open>
  A Go \<open>error\<close> made by \<open>errors.New\<close> is its message.  Signed 64-bit fields
  (\<open>int64\<close>, and \<open>int\<close> on a 64-bit platform) are words read with \<open>sint\<close>.
\<close>

type_synonym goerror = string

definition errorsNew :: "string \<Rightarrow> goerror" where [simp]:
  "errorsNew message = message"

datatype 'a outcome = Returns 'a | Panics string

record MasterConfig =
  MinWorkers :: uint64
  RegisterWait :: "64 word"
  MinPartitionsPerWorker :: uint64
  HeartbeatInterval :: "64 word"
  MaxSteps :: uint64
  JobId :: string
  StartStep :: uint64
  LoadPaths :: "string list"

record phaseInfo =
  activeVerts :: uint64
  numVerts :: uint64
  sentMsgs :: uint64
  lostWorkers :: "string list"
  errors :: "goerror list"

definition newPhaseInfo :: phaseInfo where
  "newPhaseInfo = \<lparr>activeVerts = 0, numVerts = 0, sentMsgs = 0, lostWorkers = [], errors = []\<rparr>"

record jobInfo =
  phaseInfo :: phaseInfo
  canRegister :: bool
  lastCheckpoint :: uint64
  totalSentMsgs :: uint64
  startTime :: "64 word"
  endTime :: "64 word"
  superstep :: uint64

text \<open>The heartbeat channel of a worker record carries no data and is left out.\<close>

record workerInfo =
  host :: string
  port :: string
  failed :: bool
  errorMsg :: string
  lastHeartbeat :: "64 word"

text \<open>
  Modelled from the spec: the wire structs \<open>PhaseSummary\<close> and \<open>PhaseExec\<close> are
  declared outside the files at hand; their fields are those the spec lists
  (\<open>PhaseSummary{workerId, jobId, phaseId, activeVerts, numVerts, sentMsgs, errors}\<close>,
  \<open>PhaseExec{phaseId, jobId, superstep, numVerts, checkpoint}\<close>), under the names
  the master's code uses for them.
\<close>

record PhaseSummary =
  WorkerId :: string
  JobId :: string
  PhaseId :: int
  ActiveVerts :: uint64
  NumVerts :: uint64
  SentMsgs :: uint64
  Errors :: "goerror list"

record PhaseExec =
  PhaseId :: int
  JobId :: string
  Superstep :: uint64
  NumVerts :: uint64
  Checkpoint :: bool

record barrierRemove =
  hostPort :: string
  error :: "goerror option"

text \<open>
  The interface \<open>barrierEntry\<close> has the two implementations that the type switch of
  \<open>barrier\<close> names.
\<close>

datatype barrierEntry = Summary PhaseSummary | Remove barrierRemove

text \<open>
  Modelled from the spec: the method \<open>worker\<close> of a \<open>PhaseSummary\<close> is declared
  with the struct, outside the files at hand; it returns the summary's \<open>WorkerId\<close>
  (the spec's \<open>workerId\<close>), the key under which \<open>barrier\<close> then deletes the worker.
  That of a \<open>barrierRemove\<close> is in the source.
\<close>

fun worker :: "barrierEntry \<Rightarrow> string" where
  "worker (Summary ps) = WorkerId ps"
| "worker (Remove r) = hostPort r"

text \<open>
  The master.  \<open>partitionMap\<close> is a field of the embedded \<open>node\<close>.  The last four
  fields record what the master does to the outside: the heartbeat loops it starts,
  the \<open>PhaseExec\<close> orders it broadcasts, the phases with which \<open>executePhase\<close> has
  been called, and the calls of \<open>Persister.PersistMaster\<close>.
\<close>

record Master =
  Config :: MasterConfig
  jobInfo :: jobInfo
  workerPool :: "string \<rightharpoonup> workerInfo"
  partitionMap :: "uint64 \<rightharpoonup> string"
  phase :: int
  checkpointFn :: "uint64 \<Rightarrow> bool"
  ekgStarted :: "string list"
  execSent :: "PhaseExec list"
  phaseLog :: "int list"
  persistCalls :: "(uint64 \<times> (uint64 \<rightharpoonup> string)) list"

text \<open>
  Modelled from the spec: the phase constants are declared outside the files at hand;
  they are numbered in the order of the spec's phase table.
\<close>

definition PHASE_LOAD_DATA :: int where "PHASE_LOAD_DATA = 2"
definition PHASE_LOAD_PERSISTED :: int where "PHASE_LOAD_PERSISTED = 3"
definition PHASE_DISTRIBUTE_VERTICES :: int where "PHASE_DISTRIBUTE_VERTICES = 4"
definition PHASE_RECOVER :: int where "PHASE_RECOVER = 5"
definition PHASE_STEP_PREPARE :: int where "PHASE_STEP_PREPARE = 6"
definition PHASE_SUPERSTEP :: int where "PHASE_SUPERSTEP = 7"
definition PHASE_WRITE_RESULTS :: int where "PHASE_WRITE_RESULTS = 8"

text \<open>
  \<open>net.JoinHostPort\<close> of the Go standard library: a host with a colon is taken for
  an IPv6 literal and put in brackets.
\<close>

definition JoinHostPort :: "string \<Rightarrow> string \<Rightarrow> string" where
  "JoinHostPort h p =
     (if CHR '':'' \<in> set h then ''['' @ h @ '']:'' @ p else h @ '':'' @ p)"

text \<open>
  Go iterates over a map in an order of its own choosing, which may differ from one
  \<open>range\<close> statement to the next.  Every loop over a map therefore takes the order
  as an argument: a list that enumerates the keys.
\<close>

definition enumerates :: "'k list \<Rightarrow> 'k set \<Rightarrow> bool" where
  "enumerates ks A = (distinct ks \<and> set ks = A)"

section \<open>The master: barrier\<close>

definition collectSummaryInfo :: "phaseInfo \<Rightarrow> PhaseSummary \<Rightarrow> phaseInfo" where
  "collectSummaryInfo info ps =
     info\<lparr>activeVerts := activeVerts info + ActiveVerts ps,
          numVerts := numVerts info + PhaseSummary.NumVerts ps,
          sentMsgs := sentMsgs info + SentMsgs ps,
          errors := errors info @ Errors ps\<rparr>"

definition commitPhaseInfo :: "phaseInfo \<Rightarrow> Master \<Rightarrow> Master" where
  "commitPhaseInfo info m =
     (let ji = jobInfo m;
          committed = (phaseInfo ji)\<lparr>activeVerts := activeVerts info,
                                    numVerts := numVerts info,
                                    sentMsgs := sentMsgs info\<rparr>
      in m\<lparr>jobInfo := ji\<lparr>phaseInfo := committed,
                          totalSentMsgs := totalSentMsgs ji + sentMsgs committed\<rparr>\<rparr>)"

text \<open>
  The loop \<open>for e := range ch\<close> over the entries that arrive on the channel, with
  the set \<open>b\<close> of workers still waited for.  The channel is never closed, so when
  the entries run out with workers outstanding the barrier blocks for good: the
  result is \<open>None\<close>.  When the barrier returns, the result holds the accumulator and
  the entries it has not received.
\<close>

fun barrierLoop :: "string set \<Rightarrow> phaseInfo \<Rightarrow> barrierEntry list \<Rightarrow> (phaseInfo \<times> barrierEntry list) option" where
  "barrierLoop b info [] = None"
| "barrierLoop b info (e # es) =
     (if worker e \<notin> b then barrierLoop b info es
      else
        let (b', info') =
              (case e of
                 Summary entry \<Rightarrow> (b - {WorkerId entry}, collectSummaryInfo info entry)
               | Remove entry \<Rightarrow>
                   (b - {hostPort entry},
                    info\<lparr>lostWorkers := lostWorkers info @ [hostPort entry]\<rparr>))
        in if b' = {} then Some (info', es) else barrierLoop b' info' es)"

definition barrier :: "Master \<Rightarrow> barrierEntry list \<Rightarrow> phaseInfo \<Rightarrow> (phaseInfo \<times> barrierEntry list) option" where
  "barrier m ch info =
     (let b = dom (workerPool m)
      in if b = {} then Some (info, ch) else barrierLoop b info ch)"

section \<open>The master: registration\<close>

definition RegisterWorker :: "string \<Rightarrow> string \<Rightarrow> Master \<Rightarrow> Master \<times> (goerror + string)" where
  "RegisterWorker h p m =
     (if \<not> canRegister (jobInfo m) then (m, Inl (errorsNew ''Registration is not open''))
      else
        let hp = JoinHostPort h p
        in if workerPool m hp \<noteq> None then (m, Inr (MasterConfig.JobId (Config m)))
           else (m\<lparr>workerPool := (workerPool m)(hp \<mapsto>
                       \<lparr>host = h, port = p, failed = False, errorMsg = [], lastHeartbeat = 0\<rparr>),
                    ekgStarted := ekgStarted m @ [hp]\<rparr>,
                 Inr (MasterConfig.JobId (Config m))))"

text \<open>
  The condition of the waiting loop of \<open>registerWorkers\<close>, with the loop's \<open>timer\<close>.
\<close>

definition stillWaiting :: "64 word \<Rightarrow> Master \<Rightarrow> bool" where
  "stillWaiting timer m =
     ((MinWorkers (Config m) > 0
         \<and> (of_nat (card (dom (workerPool m))) :: uint64) < MinWorkers (Config m))
      \<or> (0 < sint (RegisterWait (Config m)) \<and> sint timer < sint (RegisterWait (Config m))))"

text \<open>
  One element of \<open>ticks\<close> is the list of \<open>RegisterWorker\<close> calls served during one
  second of sleep.  When the ticks run out with the condition still true the master
  is still waiting: \<open>None\<close>.
\<close>

definition served :: "(string \<times> string) list \<Rightarrow> Master \<Rightarrow> Master" where
  "served calls m = foldl (\<lambda>m (h, p). fst (RegisterWorker h p m)) m calls"

fun registerLoop :: "64 word \<Rightarrow> (string \<times> string) list list \<Rightarrow> Master \<Rightarrow> Master option" where
  "registerLoop timer [] m = (if stillWaiting timer m then None else Some m)"
| "registerLoop timer (calls # ticks) m =
     (if stillWaiting timer m
      then registerLoop (timer + 1000000000) ticks (served calls m)
      else Some m)"

definition openRegistration :: "Master \<Rightarrow> Master" where
  "openRegistration m =
     m\<lparr>workerPool := Map.empty, jobInfo := (jobInfo m)\<lparr>canRegister := True\<rparr>\<rparr>"

definition registerWorkers :: "(string \<times> string) list list \<Rightarrow> Master \<Rightarrow> (Master \<times> goerror option) option" where
  "registerWorkers ticks m =
     (case registerLoop 0 ticks (openRegistration m) of
        None \<Rightarrow> None
      | Some m1 \<Rightarrow>
          let m2 = m1\<lparr>jobInfo := (jobInfo m1)\<lparr>canRegister := False\<rparr>\<rparr>
          in if card (dom (workerPool m2)) = 0
                \<or> (of_nat (card (dom (workerPool m2))) :: uint64) < MinWorkers (Config m2)
                  \<and> 0 < sint (RegisterWait (Config m2))
             then Some (m2, Some (errorsNew ''Not enough workers registered''))
             else Some (m2, None))"

section \<open>The master: partitions\<close>

text \<open>
  The inner loop of \<open>determinePartitions\<close>: one pass over the pool in the order
  \<open>ks\<close>.  The counter \<open>p\<close> is an \<open>int\<close> that is only ever used as \<open>uint64(p)\<close>,
  that is, modulo \<open>2 ^ 64\<close>.
\<close>

fun assignPass :: "string list \<Rightarrow> nat \<times> (uint64 \<rightharpoonup> string) \<Rightarrow> nat \<times> (uint64 \<rightharpoonup> string)" where
  "assignPass [] (p, pm) = (p, pm)"
| "assignPass (hp # ks) (p, pm) = assignPass ks (p + 1, pm(of_nat p \<mapsto> hp))"

text \<open>
  The bound of the outer loop is \<open>int(m.Config.MinPartitionsPerWorker)\<close>: the
  unsigned value read as a signed one.  \<open>passOrder i\<close> is the order of pass \<open>i\<close>.
\<close>

definition determinePartitions :: "(nat \<Rightarrow> string list) \<Rightarrow> Master \<Rightarrow> Master" where
  "determinePartitions passOrder m =
     m\<lparr>partitionMap :=
         snd (foldl (\<lambda>acc i. assignPass (passOrder i) acc) (0, Map.empty)
                [0..<nat (sint (MinPartitionsPerWorker (Config m)))])\<rparr>"

fun firstOther :: "string \<Rightarrow> string list \<Rightarrow> string" where
  "firstOther moveId [] = []"
| "firstOther moveId (hp # ks) = (if hp \<noteq> moveId then hp else firstOther moveId ks)"

fun moveLoop :: "string \<Rightarrow> string \<Rightarrow> uint64 list \<Rightarrow> (uint64 \<rightharpoonup> string) \<Rightarrow> (uint64 \<rightharpoonup> string)" where
  "moveLoop moveId newOwner [] pm = pm"
| "moveLoop moveId newOwner (pid # pids) pm =
     (case pm pid of
        None \<Rightarrow> moveLoop moveId newOwner pids pm
      | Some wid \<Rightarrow>
          if wid = moveId then moveLoop moveId newOwner pids (pm(pid \<mapsto> newOwner))
          else moveLoop moveId newOwner pids pm)"

text \<open>
  \<open>movePartitions\<close> with the order \<open>ks\<close> of its loop over the pool and the order
  \<open>pids\<close> of its loop over the partition map.  It always returns \<open>nil\<close>.
\<close>

definition movePartitions :: "string list \<Rightarrow> uint64 list \<Rightarrow> string \<Rightarrow> Master \<Rightarrow> Master" where
  "movePartitions ks pids moveId m =
     m\<lparr>partitionMap := moveLoop moveId (firstOther moveId ks) pids (partitionMap m)\<rparr>"

text \<open>
  The orders of the loops of one \<open>purgeFailedWorkers\<close>: of its own loop over the
  pool and, for the \<open>i\<close>-th failed worker, of the two loops of \<open>movePartitions\<close>.
\<close>

record purgeOrders =
  poolOrder :: "string list"
  ownerOrder :: "nat \<Rightarrow> string list"
  pidOrder :: "nat \<Rightarrow> uint64 list"

fun purgeLoop :: "string list \<Rightarrow> (string \<rightharpoonup> workerInfo) \<times> workerInfo list \<Rightarrow> (string \<rightharpoonup> workerInfo) \<times> workerInfo list" where
  "purgeLoop [] (pool, failedWorkers) = (pool, failedWorkers)"
| "purgeLoop (hp # ks) (pool, failedWorkers) =
     (case pool hp of
        None \<Rightarrow> purgeLoop ks (pool, failedWorkers)
      | Some info \<Rightarrow>
          if failed info then purgeLoop ks (pool(hp := None), failedWorkers @ [info])
          else purgeLoop ks (pool, failedWorkers))"

fun moveAll :: "purgeOrders \<Rightarrow> nat \<Rightarrow> workerInfo list \<Rightarrow> Master \<Rightarrow> Master" where
  "moveAll ord i [] m = m"
| "moveAll ord i (info # infos) m =
     moveAll ord (Suc i) infos
       (movePartitions (ownerOrder ord i) (pidOrder ord i)
          (JoinHostPort (host info) (port info)) m)"

definition purgeFailedWorkers :: "purgeOrders \<Rightarrow> Master \<Rightarrow> Master \<times> goerror option" where
  "purgeFailedWorkers ord m =
     (let (pool, failedWorkers) = purgeLoop (poolOrder ord) (workerPool m, []);
          m1 = m\<lparr>workerPool := pool\<rparr>
      in if card (dom pool) = 0 then (m1, Some (errorsNew ''no workers left''))
         else (moveAll ord 0 failedWorkers m1, None))"

definition markWorkerFailed :: "string \<Rightarrow> string \<Rightarrow> Master \<Rightarrow> Master \<times> barrierEntry option" where
  "markWorkerFailed hp message m =
     (case workerPool m hp of
        Some info \<Rightarrow>
          (m\<lparr>workerPool := (workerPool m)(hp \<mapsto> info\<lparr>failed := True, errorMsg := message\<rparr>)\<rparr>,
           Some (Remove \<lparr>hostPort = hp, error = None\<rparr>))
      | None \<Rightarrow> (m, None))"

section \<open>The master: phases and the compute loop\<close>

definition newPhaseExec :: "int \<Rightarrow> Master \<Rightarrow> PhaseExec" where
  "newPhaseExec phaseId m =
     \<lparr>PhaseId = phaseId,
      JobId = MasterConfig.JobId (Config m),
      Superstep = superstep (jobInfo m),
      NumVerts = numVerts (phaseInfo (jobInfo m)),
      Checkpoint = checkpointFn m (superstep (jobInfo m))\<rparr>"

text \<open>
  What one call of \<open>executePhase\<close> meets: the orders of the map loops of the purge
  and the entries that arrive on the barrier channel.
\<close>

record phaseEnv =
  orders :: purgeOrders
  arrivals :: "barrierEntry list"

definition notePhase :: "int \<Rightarrow> Master \<Rightarrow> Master" where
  "notePhase phaseId m = m\<lparr>phaseLog := phaseLog m @ [phaseId]\<rparr>"

text \<open>
  \<open>executePhase\<close>.  \<open>None\<close>: the barrier never closes.  With phase errors the code
  panics before its \<open>return phaseErrors\<close>.  Every call is noted in \<open>phaseLog\<close>.
\<close>

definition executePhase :: "int \<Rightarrow> phaseEnv \<Rightarrow> Master \<Rightarrow> (Master \<times> goerror list outcome) option" where
  "executePhase phaseId env m =
     (case purgeFailedWorkers (orders env) m of
        (m1, Some err) \<Rightarrow> Some (notePhase phaseId m1, Returns [err])
      | (m1, None) \<Rightarrow>
          let m2 = (notePhase phaseId m1)\<lparr>phase := phaseId\<rparr>;
              info = newPhaseInfo;
              exec = newPhaseExec phaseId m2;
              m3 = m2\<lparr>execSent := execSent m2 @ [exec]\<rparr>
          in (case barrier m3 (arrivals env) info of
                None \<Rightarrow> None
              | Some (info, rest) \<Rightarrow>
                  let phaseErrors = map errorsNew (lostWorkers info) @ errors info
                  in if length phaseErrors > 0 then Some (m3, Panics ''phase errors'')
                     else Some (commitPhaseInfo info m3, Returns [])))"

text \<open>
  What one iteration of the compute loop meets: the workers that heartbeat loops and
  failed sends have marked as failed before each of its two phases, the environment
  of each phase and the answer of \<open>Persister.PersistMaster\<close>, should it be called.
\<close>

record stepEnv =
  failedBeforePrepare :: "(string \<times> string) list"
  prepareEnv :: phaseEnv
  failedBeforeStep :: "(string \<times> string) list"
  superstepEnv :: phaseEnv
  persistError :: "goerror option"

definition markAll :: "(string \<times> string) list \<Rightarrow> Master \<Rightarrow> Master" where
  "markAll fs m = foldl (\<lambda>m (hp, msg). fst (markWorkerFailed hp msg m)) m fs"

definition loopCondition :: "Master \<Rightarrow> bool" where
  "loopCondition m =
     (activeVerts (phaseInfo (jobInfo m)) > 0 \<or> sentMsgs (phaseInfo (jobInfo m)) > 0)"

definition hitMaxSteps :: "Master \<Rightarrow> bool" where
  "hitMaxSteps m =
     (MaxSteps (Config m) > 0 \<and> \<not> superstep (jobInfo m) < MaxSteps (Config m))"

text \<open>
  \<open>m.persister.PersistMaster(m.jobInfo.superstep, m.partitionMap)\<close>: the call is
  recorded, and the persister, which is outside the master, answers with \<open>answer\<close>.
\<close>

definition PersistMaster :: "goerror option \<Rightarrow> Master \<Rightarrow> Master \<times> goerror option" where
  "PersistMaster answer m =
     (m\<lparr>persistCalls := persistCalls m @ [(superstep (jobInfo m), partitionMap m)]\<rparr>, answer)"

definition nextSuperstep :: "Master \<Rightarrow> Master" where
  "nextSuperstep m = m\<lparr>jobInfo := (jobInfo m)\<lparr>superstep := superstep (jobInfo m) + 1\<rparr>\<rparr>"

text \<open>
  The loop of \<open>compute\<close>, one element of the list for each iteration.  \<open>None\<close>: the
  loop is still running when the list ends, or a barrier never closes.  The errors
  that \<open>executePhase\<close> returns are dropped, as in the code.
\<close>

fun computeLoop :: "stepEnv list \<Rightarrow> Master \<Rightarrow> (Master \<times> goerror option outcome) option" where
  "computeLoop [] m =
     (if loopCondition m \<and> \<not> hitMaxSteps m then None else Some (m, Returns None))"
| "computeLoop (e # es) m =
     (if \<not> loopCondition m then Some (m, Returns None)
      else if hitMaxSteps m then Some (m, Returns None)
      else
        (case executePhase PHASE_STEP_PREPARE (prepareEnv e) (markAll (failedBeforePrepare e) m) of
           None \<Rightarrow> None
         | Some (m1, Panics s) \<Rightarrow> Some (m1, Panics s)
         | Some (m1, Returns errs1) \<Rightarrow>
             (case executePhase PHASE_SUPERSTEP (superstepEnv e) (markAll (failedBeforeStep e) m1) of
                None \<Rightarrow> None
              | Some (m2, Panics s) \<Rightarrow> Some (m2, Panics s)
              | Some (m2, Returns errs2) \<Rightarrow>
                  if checkpointFn m2 (superstep (jobInfo m2))
                  then
                    (case PersistMaster (persistError e) m2 of
                       (m3, Some err) \<Rightarrow> Some (m3, Returns (Some err))
                     | (m3, None) \<Rightarrow> computeLoop es (nextSuperstep m3))
                  else computeLoop es (nextSuperstep m2))))"

definition compute :: "stepEnv list \<Rightarrow> Master \<Rightarrow> (Master \<times> goerror option outcome) option" where
  "compute envs m = computeLoop envs (m\<lparr>jobInfo := (jobInfo m)\<lparr>superstep := 0\<rparr>\<rparr>)"

section \<open>Auxiliary definitions and a sample job\<close>

text \<open>What the type switch of \<open>barrier\<close> does to the accumulator for one entry.\<close>

definition account :: "phaseInfo \<Rightarrow> barrierEntry \<Rightarrow> phaseInfo" where
  "account info e =
     (case e of
        Summary entry \<Rightarrow> collectSummaryInfo info entry
      | Remove entry \<Rightarrow> info\<lparr>lostWorkers := lostWorkers info @ [hostPort entry]\<rparr>)"

text \<open>Two states of the master that differ in the pool and the partition map at most.\<close>

definition sameControl :: "Master \<Rightarrow> Master \<Rightarrow> bool" where
  "sameControl m m' =
     (Config m' = Config m \<and> jobInfo m' = jobInfo m \<and> phase m' = phase m
      \<and> checkpointFn m' = checkpointFn m \<and> ekgStarted m' = ekgStarted m
      \<and> execSent m' = execSent m \<and> phaseLog m' = phaseLog m
      \<and> persistCalls m' = persistCalls m)"

text \<open>The master after a call of \<open>PersistMaster\<close>, whatever the persister answers.\<close>

abbreviation persistNoted :: "Master \<Rightarrow> Master" where
  "persistNoted m \<equiv> fst (PersistMaster None m)"

text \<open>
  Whether a worker of the pool is marked as failed, the pool without those workers, and
  the ids under which \<open>purgeFailedWorkers\<close> moves the partitions of failed workers.
\<close>

definition isFailed :: "(string \<rightharpoonup> workerInfo) \<Rightarrow> string \<Rightarrow> bool" where
  "isFailed pool hp = (case pool hp of None \<Rightarrow> False | Some info \<Rightarrow> failed info)"

definition liveWorkers :: "(string \<rightharpoonup> workerInfo) \<Rightarrow> (string \<rightharpoonup> workerInfo)" where
  "liveWorkers pool = (\<lambda>hp. if isFailed pool hp then None else pool hp)"

definition moveIds :: "workerInfo list \<Rightarrow> string list" where
  "moveIds infos = map (\<lambda>info. JoinHostPort (host info) (port info)) infos"

text \<open>
  The owner that round-robin assignment gives partition \<open>q\<close> when every pass runs
  over \<open>W\<close> workers, and the state of \<open>determinePartitions\<close> after \<open>n\<close> passes.
\<close>

definition roundRobin :: "(nat \<Rightarrow> string list) \<Rightarrow> nat \<Rightarrow> nat \<Rightarrow> string" where
  "roundRobin passOrder W q = passOrder (q div W) ! (q mod W)"

definition passes :: "(nat \<Rightarrow> string list) \<Rightarrow> nat \<Rightarrow> nat \<times> (uint64 \<rightharpoonup> string)" where
  "passes passOrder n = foldl (\<lambda>acc i. assignPass (passOrder i) acc) (0, Map.empty) [0..<n]"

text \<open>
  A job with the two workers \<open>a:1\<close> and \<open>b:1\<close>, two partitions for each, one active
  vertex committed, and no limit on the number of supersteps.
\<close>

definition sampleConfig :: MasterConfig where
  "sampleConfig =
     \<lparr>MinWorkers = 2, RegisterWait = 0, MinPartitionsPerWorker = 2, HeartbeatInterval = 5,
      MaxSteps = 0, JobId = ''job'', StartStep = 0, LoadPaths = []\<rparr>"

definition sampleWorker :: "string \<Rightarrow> workerInfo" where
  "sampleWorker h = \<lparr>host = h, port = ''1'', failed = False, errorMsg = [], lastHeartbeat = 0\<rparr>"

definition samplePool :: "string \<rightharpoonup> workerInfo" where
  "samplePool = [''a:1'' \<mapsto> sampleWorker ''a'', ''b:1'' \<mapsto> sampleWorker ''b'']"

definition samplePartitions :: "uint64 \<rightharpoonup> string" where
  "samplePartitions = [0 \<mapsto> ''a:1'', 1 \<mapsto> ''b:1'', 2 \<mapsto> ''a:1'', 3 \<mapsto> ''b:1'']"

definition sampleMaster :: Master where
  "sampleMaster =
     \<lparr>Config = sampleConfig,
      jobInfo = \<lparr>phaseInfo = newPhaseInfo\<lparr>activeVerts := 1, numVerts := 4\<rparr>,
                 canRegister = False, lastCheckpoint = 0, totalSentMsgs = 0,
                 startTime = 0, endTime = 0, superstep = 0\<rparr>,
      workerPool = samplePool,
      partitionMap = samplePartitions,
      phase = PHASE_DISTRIBUTE_VERTICES,
      checkpointFn = (\<lambda>s. False),
      ekgStarted = [''a:1'', ''b:1''],
      execSent = [],
      phaseLog = [],
      persistCalls = []\<rparr>"

definition sampleSummary :: "string \<Rightarrow> int \<Rightarrow> uint64 \<Rightarrow> uint64 \<Rightarrow> PhaseSummary" where
  "sampleSummary w ph active sent =
     \<lparr>WorkerId = w, JobId = ''job'', PhaseId = ph, ActiveVerts = active, NumVerts = 2,
      SentMsgs = sent, Errors = []\<rparr>"

definition sampleOrders :: purgeOrders where
  "sampleOrders =
     \<lparr>poolOrder = [''a:1'', ''b:1''],
      ownerOrder = (\<lambda>i. [''a:1'', ''b:1'']),
      pidOrder = (\<lambda>i. [0, 1, 2, 3])\<rparr>"

text \<open>A phase in which both workers report, with the given numbers of active vertices.\<close>

definition samplePhase :: "int \<Rightarrow> uint64 \<Rightarrow> uint64 \<Rightarrow> phaseEnv" where
  "samplePhase ph active sent =
     \<lparr>orders = sampleOrders,
      arrivals = [Summary (sampleSummary ''a:1'' ph active sent),
                  Summary (sampleSummary ''b:1'' ph 0 0)]\<rparr>"

definition sampleStep :: "uint64 \<Rightarrow> stepEnv" where
  "sampleStep active =
     \<lparr>failedBeforePrepare = [],
      prepareEnv = samplePhase PHASE_STEP_PREPARE 1 0,
      failedBeforeStep = [],
      superstepEnv = samplePhase PHASE_SUPERSTEP active 0,
      persistError = None\<rparr>"

text \<open>A phase in which \<open>a:1\<close> reports and \<open>b:1\<close> is marked as failed.\<close>

definition lostPhase :: phaseEnv where
  "lostPhase =
     \<lparr>orders = sampleOrders,
      arrivals = [Summary (sampleSummary ''a:1'' PHASE_SUPERSTEP 3 4),
                  Remove \<lparr>hostPort = ''b:1'', error = None\<rparr>]\<rparr>"

text \<open>
  A phase in which the summary of \<open>a:1\<close> names another job and another phase than
  the master's.
\<close>

definition strayPhase :: phaseEnv where
  "strayPhase =
     \<lparr>orders = sampleOrders,
      arrivals = [Summary ((sampleSummary ''a:1'' PHASE_LOAD_DATA 5 0)\<lparr>PhaseSummary.JobId := ''another job''\<rparr>),
                  Summary (sampleSummary ''b:1'' PHASE_SUPERSTEP 0 0)]\<rparr>"

text \<open>The sample job with a checkpoint wanted at superstep 1 and at no other.\<close>

definition checkpointingMaster :: Master where
  "checkpointingMaster = sampleMaster\<lparr>checkpointFn := (\<lambda>s. s = 1)\<rparr>"

text \<open>The sample job after the worker \<open>b:1\<close> has been marked as failed.\<close>

definition failingMaster :: Master where
  "failingMaster =
     sampleMaster\<lparr>workerPool := samplePool(''b:1'' \<mapsto> (sampleWorker ''b'')\<lparr>failed := True\<rparr>)\<rparr>"

definition failingOrders :: purgeOrders where
  "failingOrders =
     \<lparr>poolOrder = [''b:1'', ''a:1''],
      ownerOrder = (\<lambda>i. [''a:1'']),
      pidOrder = (\<lambda>i. [3, 0, 2, 1])\<rparr>"

text \<open>
  The sample job configured as in the registration scenario of the spec: three workers
  wanted, two seconds of waiting.
\<close>

definition scenarioMaster :: Master where
  "scenarioMaster =
     sampleMaster\<lparr>Config := sampleConfig\<lparr>MinWorkers := 3, RegisterWait := 2000000000\<rparr>\<rparr>"

section \<open>Edge removal\<close>

text \<open>
  C10.  The claim is that after \<open>removeOutEdge t\<close> no edge with target \<open>t\<close> is left.
  On a vertex with the edges \<open>t, t, x\<close> the call returns normally and the edge list
  is \<open>t, x\<close>: removing the first edge shifts the second into the cell the loop has
  just left, so it is never examined.
\<close>

theorem removeOutEdge_keeps_adjacent_duplicate:
  "map_sum id OutEdges
     (removeOutEdge id ''t'' \<lparr>Id = ''v'', Edges = mkSlice [''t'', ''t'', ''x''], Active = True\<rparr>)
   = Inr [''t'', ''x'']"
  by (simp add: removeOutEdge_def OutEdges_def elems_def mkSlice_def spliceOut_def upt_rec)

section \<open>Facts used throughout\<close>

lemmas sample_defs = sampleConfig_def sampleWorker_def samplePool_def samplePartitions_def
  sampleMaster_def sampleSummary_def sampleOrders_def samplePhase_def sampleStep_def
  newPhaseInfo_def lostPhase_def strayPhase_def checkpointingMaster_def

lemmas run_defs = executePhase_def notePhase_def PersistMaster_def purgeFailedWorkers_def barrier_def collectSummaryInfo_def
  commitPhaseInfo_def newPhaseExec_def Let_def compute_def loopCondition_def hitMaxSteps_def
  markAll_def nextSuperstep_def insert_Diff_if movePartitions_def markWorkerFailed_def
  PHASE_STEP_PREPARE_def PHASE_SUPERSTEP_def barrierLoop.simps(2)

lemma moveAll_frame: "sameControl m (moveAll ord i infos m) \<and> workerPool (moveAll ord i infos m) = workerPool m"
  by (induction infos arbitrary: i m) (simp_all add: movePartitions_def sameControl_def)

lemma purgeFailedWorkers_frame: "sameControl m (fst (purgeFailedWorkers ord m))"
proof -
  obtain pool fw where p: "purgeLoop (poolOrder ord) (workerPool m, []) = (pool, fw)"
    by (cases "purgeLoop (poolOrder ord) (workerPool m, [])")
  have "sameControl (m\<lparr>workerPool := pool\<rparr>) (moveAll ord 0 fw (m\<lparr>workerPool := pool\<rparr>))"
    using moveAll_frame by blast
  then show ?thesis using p by (simp add: purgeFailedWorkers_def sameControl_def Let_def)
qed

lemma markWorkerFailed_frame:
  "sameControl m (fst (markWorkerFailed hp msg m))
   \<and> partitionMap (fst (markWorkerFailed hp msg m)) = partitionMap m"
  by (simp add: markWorkerFailed_def sameControl_def split: option.split)

lemma markAll_frame: "sameControl m (markAll fs m) \<and> partitionMap (markAll fs m) = partitionMap m"
proof (induction fs arbitrary: m)
  case Nil
  show ?case by (simp add: markAll_def sameControl_def)
next
  case (Cons f fs)
  obtain hp msg where f: "f = (hp, msg)" by (cases f)
  have "markAll (f # fs) m = markAll fs (fst (markWorkerFailed hp msg m))"
    using f by (simp add: markAll_def)
  then show ?case using Cons.IH [of "fst (markWorkerFailed hp msg m)"] markWorkerFailed_frame [of m hp msg]
    by (simp add: sameControl_def)
qed

text \<open>What a call of executePhase leaves alone.\<close>

lemma executePhase_frame:
  assumes "executePhase phaseId env m = Some (m', r)"
  shows "Config m' = Config m \<and> checkpointFn m' = checkpointFn m
         \<and> phaseLog m' = phaseLog m @ [phaseId] \<and> persistCalls m' = persistCalls m
         \<and> superstep (jobInfo m') = superstep (jobInfo m)
         \<and> lastCheckpoint (jobInfo m') = lastCheckpoint (jobInfo m)
         \<and> canRegister (jobInfo m') = canRegister (jobInfo m)"
proof -
  obtain m1 e where p: "purgeFailedWorkers (orders env) m = (m1, e)"
    by (cases "purgeFailedWorkers (orders env) m")
  have f: "sameControl m m1" using purgeFailedWorkers_frame [of m "orders env"] p by simp
  show ?thesis
  proof (cases e)
    case (Some err)
    with assms p have "m' = notePhase phaseId m1" by (simp add: executePhase_def)
    then show ?thesis using f by (simp add: sameControl_def notePhase_def)
  next
    case None
    let ?m2 = "(notePhase phaseId m1)\<lparr>phase := phaseId\<rparr>"
    let ?m3 = "?m2\<lparr>execSent := execSent ?m2 @ [newPhaseExec phaseId ?m2]\<rparr>"
    from assms p None obtain info rest where
      "barrier ?m3 (arrivals env) newPhaseInfo = Some (info, rest)"
      and "m' = ?m3 \<or> m' = commitPhaseInfo info ?m3"
      by (auto simp: executePhase_def Let_def split: option.splits if_splits)
    then show ?thesis using f by (auto simp: sameControl_def commitPhaseInfo_def Let_def notePhase_def)
  qed
qed

section \<open>The barrier\<close>

lemma barrierLoop_Cons:
  "barrierLoop b info (e # es) =
     (if worker e \<notin> b then barrierLoop b info es
      else if b - {worker e} = {} then Some (account info e, es)
      else barrierLoop (b - {worker e}) (account info e) es)"
  by (cases e) (simp_all add: account_def)

declare barrierLoop.simps(2) [simp del]

lemma barrierLoop_closes_iff:
  "b \<noteq> {} \<Longrightarrow> (barrierLoop b info es \<noteq> None) = (b \<subseteq> worker ` set es)"
proof (induction es arbitrary: b info)
  case Nil
  then show ?case by simp
next
  case (Cons e es)
  show ?case
  proof (cases "worker e \<in> b")
    case False
    then show ?thesis using Cons.IH [OF Cons.prems, of info] by (auto simp: barrierLoop_Cons)
  next
    case True
    show ?thesis
    proof (cases "b - {worker e} = {}")
      case True
      then show ?thesis using \<open>worker e \<in> b\<close> by (auto simp: barrierLoop_Cons)
    next
      case False
      then show ?thesis using \<open>worker e \<in> b\<close> Cons.IH [OF False, of "account info e"]
        by (auto simp: barrierLoop_Cons)
    qed
  qed
qed

lemma barrierLoop_prefix:
  "barrierLoop b info es = Some (info', rest) \<Longrightarrow>
   \<exists>used. es = used @ rest \<and> used \<noteq> [] \<and> b \<subseteq> worker ` set used
          \<and> \<not> b \<subseteq> worker ` set (butlast used)"
proof (induction es arbitrary: b info)
  case Nil
  then show ?case by simp
next
  case (Cons e es)
  show ?case
  proof (cases "worker e \<in> b")
    case False
    with Cons.prems have "barrierLoop b info es = Some (info', rest)"
      by (simp add: barrierLoop_Cons)
    from Cons.IH [OF this] obtain used where u: "es = used @ rest" "used \<noteq> []"
      "b \<subseteq> worker ` set used" "\<not> b \<subseteq> worker ` set (butlast used)" by blast
    have "e # es = (e # used) @ rest \<and> e # used \<noteq> [] \<and> b \<subseteq> worker ` set (e # used)
          \<and> \<not> b \<subseteq> worker ` set (butlast (e # used))"
      using u False by auto
    then show ?thesis by blast
  next
    case True
    show ?thesis
    proof (cases "b - {worker e} = {}")
      case e: True
      with True Cons.prems have "rest = es" by (simp add: barrierLoop_Cons)
      then have "e # es = [e] @ rest \<and> [e] \<noteq> [] \<and> b \<subseteq> worker ` set [e]
          \<and> \<not> b \<subseteq> worker ` set (butlast [e])"
        using e True by auto
      then show ?thesis by blast
    next
      case ne: False
      with True Cons.prems have "barrierLoop (b - {worker e}) (account info e) es = Some (info', rest)"
        by (simp add: barrierLoop_Cons)
      from Cons.IH [OF this] obtain used where u: "es = used @ rest" "used \<noteq> []"
        "b - {worker e} \<subseteq> worker ` set used" "\<not> b - {worker e} \<subseteq> worker ` set (butlast used)" by blast
      have "e # es = (e # used) @ rest \<and> e # used \<noteq> [] \<and> b \<subseteq> worker ` set (e # used)
          \<and> \<not> b \<subseteq> worker ` set (butlast (e # used))"
        using u True by auto
      then show ?thesis by blast
    qed
  qed
qed

lemma barrierLoop_discards:
  "b \<subseteq> S \<Longrightarrow>
   map_option fst (barrierLoop b info (filter (\<lambda>e. worker e \<in> S) es))
   = map_option fst (barrierLoop b info es)"
proof (induction es arbitrary: b info)
  case Nil
  then show ?case by simp
next
  case (Cons e es)
  have sub: "b - {worker e} \<subseteq> S" using Cons.prems by auto
  show ?case
  proof (cases "worker e \<in> S")
    case False
    then have "worker e \<notin> b" using Cons.prems by auto
    then show ?thesis using False Cons.IH [OF Cons.prems, of info] by (simp add: barrierLoop_Cons)
  next
    case True
    then show ?thesis using Cons.IH [OF Cons.prems, of info] Cons.IH [OF sub, of "account info e"]
      by (simp add: barrierLoop_Cons)
  qed
qed

text \<open>
  C2.  Let \<open>S\<close> be the keys of the worker pool when \<open>barrier\<close> starts and \<open>ch\<close> the
  entries that arrive on the channel.  The barrier returns if and only if every worker
  of \<open>S\<close> is the worker of some entry of \<open>ch\<close> (a \<open>PhaseSummary\<close> or a
  \<open>barrierRemove\<close>).  When it returns it has received a prefix \<open>used\<close> of \<open>ch\<close> in
  which every worker of \<open>S\<close> has an entry, and no shorter prefix has that property.
  Dropping from \<open>ch\<close> the entries of workers outside \<open>S\<close> changes neither whether
  the barrier returns nor the accumulator it returns with.
\<close>

theorem barrier_closes_exactly_when_all_accounted:
  "(barrier m ch info \<noteq> None) = (dom (workerPool m) \<subseteq> worker ` set ch)
   \<and> (\<forall>info' rest. barrier m ch info = Some (info', rest) \<longrightarrow>
        (\<exists>used. ch = used @ rest \<and> dom (workerPool m) \<subseteq> worker ` set used
           \<and> (used \<noteq> [] \<longrightarrow> \<not> dom (workerPool m) \<subseteq> worker ` set (butlast used))))
   \<and> map_option fst (barrier m (filter (\<lambda>e. worker e \<in> dom (workerPool m)) ch) info)
     = map_option fst (barrier m ch info)"
proof (cases "dom (workerPool m) = {}")
  case True
  then show ?thesis by (simp add: barrier_def)
next
  case False
  have 1: "(barrier m ch info \<noteq> None) = (dom (workerPool m) \<subseteq> worker ` set ch)"
    using False barrierLoop_closes_iff [OF False, of info ch] by (simp add: barrier_def)
  have 2: "\<exists>used. ch = used @ rest \<and> dom (workerPool m) \<subseteq> worker ` set used
           \<and> (used \<noteq> [] \<longrightarrow> \<not> dom (workerPool m) \<subseteq> worker ` set (butlast used))"
    if "barrier m ch info = Some (info', rest)" for info' rest
  proof -
    from that False have "barrierLoop (dom (workerPool m)) info ch = Some (info', rest)"
      by (simp add: barrier_def)
    from barrierLoop_prefix [OF this] show ?thesis by blast
  qed
  have 3: "map_option fst (barrier m (filter (\<lambda>e. worker e \<in> dom (workerPool m)) ch) info)
     = map_option fst (barrier m ch info)"
    using False barrierLoop_discards [of "dom (workerPool m)" "dom (workerPool m)" info ch]
    by (simp add: barrier_def Let_def)
  from 1 2 3 show ?thesis by blast
qed

theorem barrier_closes_exactly_when_all_accounted_witness:
  "barrier sampleMaster
     [Summary (sampleSummary ''z:9'' PHASE_SUPERSTEP 5 5),
      Summary (sampleSummary ''a:1'' PHASE_SUPERSTEP 1 0),
      Remove \<lparr>hostPort = ''b:1'', error = None\<rparr>,
      Summary (sampleSummary ''a:1'' PHASE_SUPERSTEP 1 0)] newPhaseInfo \<noteq> None
   \<and> barrier sampleMaster [Summary (sampleSummary ''a:1'' PHASE_SUPERSTEP 1 0)] newPhaseInfo = None"
proof -
  let ?ch = "[Summary (sampleSummary ''z:9'' PHASE_SUPERSTEP 5 5),
      Summary (sampleSummary ''a:1'' PHASE_SUPERSTEP 1 0),
      Remove \<lparr>hostPort = ''b:1'', error = None\<rparr>,
      Summary (sampleSummary ''a:1'' PHASE_SUPERSTEP 1 0)]"
  let ?short = "[Summary (sampleSummary ''a:1'' PHASE_SUPERSTEP 1 0)]"
  have all: "dom (workerPool sampleMaster) \<subseteq> worker ` set ?ch"
    by (simp add: sampleMaster_def samplePool_def sampleSummary_def)
  have some: "\<not> dom (workerPool sampleMaster) \<subseteq> worker ` set ?short"
    by (simp add: sampleMaster_def samplePool_def sampleSummary_def)
  show ?thesis
    using barrier_closes_exactly_when_all_accounted [of sampleMaster ?ch newPhaseInfo]
          barrier_closes_exactly_when_all_accounted [of sampleMaster ?short newPhaseInfo]
          all some
    by blast
qed


section \<open>Phases\<close>

lemma barrier_pool_only:
  "workerPool m' = workerPool m \<Longrightarrow> barrier m' ch info = barrier m ch info"
  by (simp add: barrier_def)

text \<open>
  C3, as amended.  When the purge finds no worker left, \<open>executePhase\<close> returns that
  one error and the committed \<open>JobInfo\<close> is as before.  Otherwise, once the barrier
  has closed with the accumulator \<open>info\<close>: if \<open>lostWorkers\<close> or \<open>errors\<close> of
  \<open>info\<close> is not empty, \<open>executePhase\<close> panics with \<open>phase errors\<close> and the
  committed \<open>JobInfo\<close> is as before; if both are empty, \<open>executePhase\<close> returns no
  error, the committed \<open>activeVerts\<close>, \<open>numVerts\<close> and \<open>sentMsgs\<close> are those of
  \<open>info\<close>, and \<open>totalSentMsgs\<close> has grown by \<open>sentMsgs\<close> of \<open>info\<close>.
\<close>

theorem executePhase_commits_or_panics:
  "(\<forall>m1 err. purgeFailedWorkers (orders env) m = (m1, Some err) \<longrightarrow>
      (\<exists>m'. executePhase phaseId env m = Some (m', Returns [err]) \<and> jobInfo m' = jobInfo m))
   \<and> (\<forall>m1 info rest.
        purgeFailedWorkers (orders env) m = (m1, None) \<and>
        barrier m1 (arrivals env) newPhaseInfo = Some (info, rest) \<longrightarrow>
        (if lostWorkers info \<noteq> [] \<or> errors info \<noteq> []
         then \<exists>m'. executePhase phaseId env m = Some (m', Panics ''phase errors'')
                \<and> jobInfo m' = jobInfo m
         else \<exists>m'. executePhase phaseId env m = Some (m', Returns [])
                \<and> activeVerts (phaseInfo (jobInfo m')) = activeVerts info
                \<and> numVerts (phaseInfo (jobInfo m')) = numVerts info
                \<and> sentMsgs (phaseInfo (jobInfo m')) = sentMsgs info
                \<and> totalSentMsgs (jobInfo m') = totalSentMsgs (jobInfo m) + sentMsgs info))"
proof (intro conjI allI impI)
  fix m1 err
  assume p: "purgeFailedWorkers (orders env) m = (m1, Some err)"
  have "sameControl m m1" using purgeFailedWorkers_frame [of m "orders env"] p by simp
  then have "jobInfo (notePhase phaseId m1) = jobInfo m"
    by (simp add: sameControl_def notePhase_def)
  moreover have "executePhase phaseId env m = Some (notePhase phaseId m1, Returns [err])"
    using p by (simp add: executePhase_def)
  ultimately show "\<exists>m'. executePhase phaseId env m = Some (m', Returns [err]) \<and> jobInfo m' = jobInfo m"
    by blast
next
  fix m1 info rest
  assume a: "purgeFailedWorkers (orders env) m = (m1, None) \<and>
        barrier m1 (arrivals env) newPhaseInfo = Some (info, rest)"
  let ?m2 = "(notePhase phaseId m1)\<lparr>phase := phaseId\<rparr>"
  let ?m3 = "?m2\<lparr>execSent := execSent ?m2 @ [newPhaseExec phaseId ?m2]\<rparr>"
  have same: "sameControl m m1" using purgeFailedWorkers_frame [of m "orders env"] a by simp
  have j3: "jobInfo ?m3 = jobInfo m" using same by (simp add: sameControl_def notePhase_def)
  have b: "barrier ?m3 (arrivals env) newPhaseInfo = Some (info, rest)"
    using a barrier_pool_only [of ?m3 m1] by (simp add: notePhase_def)
  show "if lostWorkers info \<noteq> [] \<or> errors info \<noteq> []
         then \<exists>m'. executePhase phaseId env m = Some (m', Panics ''phase errors'')
                \<and> jobInfo m' = jobInfo m
         else \<exists>m'. executePhase phaseId env m = Some (m', Returns [])
                \<and> activeVerts (phaseInfo (jobInfo m')) = activeVerts info
                \<and> numVerts (phaseInfo (jobInfo m')) = numVerts info
                \<and> sentMsgs (phaseInfo (jobInfo m')) = sentMsgs info
                \<and> totalSentMsgs (jobInfo m') = totalSentMsgs (jobInfo m) + sentMsgs info"
  proof (cases "lostWorkers info \<noteq> [] \<or> errors info \<noteq> []")
    case True
    then have "executePhase phaseId env m = Some (?m3, Panics ''phase errors'')"
      using a b by (auto simp: executePhase_def Let_def)
    then show ?thesis using True j3 by auto
  next
    case False
    then have "executePhase phaseId env m = Some (commitPhaseInfo info ?m3, Returns [])"
      using a b by (auto simp: executePhase_def Let_def)
    moreover have "activeVerts (phaseInfo (jobInfo (commitPhaseInfo info ?m3))) = activeVerts info
        \<and> numVerts (phaseInfo (jobInfo (commitPhaseInfo info ?m3))) = numVerts info
        \<and> sentMsgs (phaseInfo (jobInfo (commitPhaseInfo info ?m3))) = sentMsgs info
        \<and> totalSentMsgs (jobInfo (commitPhaseInfo info ?m3)) = totalSentMsgs (jobInfo m) + sentMsgs info"
      using j3 by (simp add: commitPhaseInfo_def Let_def)
    ultimately show ?thesis using False by auto
  qed
qed

text \<open>
  The claim as it stands has \<open>executePhase\<close> return the errors of the phase.  In a
  phase that loses the worker \<open>b:1\<close> it panics instead.
\<close>

theorem executePhase_panics_on_lost_worker:
  "map_option snd (executePhase PHASE_SUPERSTEP lostPhase sampleMaster)
     = Some (Panics ''phase errors'')
   \<and> map_option snd (executePhase PHASE_SUPERSTEP lostPhase sampleMaster)
     \<noteq> Some (Returns [errorsNew ''b:1''])"
  by (simp add: sample_defs run_defs)

theorem executePhase_commits_or_panics_witness:
  "(\<exists>m'. executePhase PHASE_SUPERSTEP lostPhase sampleMaster = Some (m', Panics ''phase errors'')
                \<and> jobInfo m' = jobInfo sampleMaster)
   \<and> (\<exists>m'. executePhase PHASE_SUPERSTEP (samplePhase PHASE_SUPERSTEP 3 4) sampleMaster = Some (m', Returns [])
         \<and> activeVerts (phaseInfo (jobInfo m')) = 3 \<and> totalSentMsgs (jobInfo m') = 4)"
proof -
  have p: "purgeFailedWorkers sampleOrders sampleMaster = (sampleMaster, None)"
    by (simp add: sample_defs purgeFailedWorkers_def)
  have b1: "barrier sampleMaster (arrivals lostPhase) newPhaseInfo
      = Some (\<lparr>activeVerts = 3, numVerts = 2, sentMsgs = 4, lostWorkers = [''b:1''], errors = []\<rparr>, [])"
    by (simp add: sample_defs run_defs)
  have b2: "barrier sampleMaster (arrivals (samplePhase PHASE_SUPERSTEP 3 4)) newPhaseInfo
      = Some (\<lparr>activeVerts = 3, numVerts = 4, sentMsgs = 4, lostWorkers = [], errors = []\<rparr>, [])"
    by (simp add: sample_defs run_defs)
  have o1: "orders lostPhase = sampleOrders" by (simp add: lostPhase_def)
  have o2: "orders (samplePhase PHASE_SUPERSTEP 3 4) = sampleOrders" by (simp add: samplePhase_def)
  have t: "totalSentMsgs (jobInfo sampleMaster) = 0" by (simp add: sampleMaster_def)
  show ?thesis
    using executePhase_commits_or_panics [of lostPhase sampleMaster PHASE_SUPERSTEP]
          executePhase_commits_or_panics [of "samplePhase PHASE_SUPERSTEP 3 4" sampleMaster PHASE_SUPERSTEP]
          p b1 b2 o1 o2 t
    by (simp only: o1 o2) auto
qed

section \<open>The compute loop\<close>

lemma computeLoop_step:
  assumes "loopCondition m" "\<not> hitMaxSteps m" "computeLoop (e # es) m = Some (m', r)"
  shows "\<exists>m1 r1. executePhase PHASE_STEP_PREPARE (prepareEnv e) (markAll (failedBeforePrepare e) m) = Some (m1, r1) \<and>
   ((\<exists>s. r1 = Panics s \<and> m' = m1 \<and> r = Panics s) \<or>
    (\<exists>errs1 m2 r2. r1 = Returns errs1 \<and>
       executePhase PHASE_SUPERSTEP (superstepEnv e) (markAll (failedBeforeStep e) m1) = Some (m2, r2) \<and>
       ((\<exists>s. r2 = Panics s \<and> m' = m2 \<and> r = Panics s) \<or>
        (\<exists>errs2. r2 = Returns errs2 \<and>
           (if checkpointFn m2 (superstep (jobInfo m2))
            then (\<exists>err. persistError e = Some err \<and> m' = persistNoted m2 \<and> r = Returns (Some err))
                 \<or> (persistError e = None \<and> computeLoop es (nextSuperstep (persistNoted m2)) = Some (m', r))
            else computeLoop es (nextSuperstep m2) = Some (m', r))))))"
  using assms
  by (auto simp: PersistMaster_def Let_def split: option.splits prod.splits outcome.splits if_splits)

lemma markAll_same [simp]:
  "Config (markAll fs m) = Config m" "jobInfo (markAll fs m) = jobInfo m"
  "checkpointFn (markAll fs m) = checkpointFn m" "phaseLog (markAll fs m) = phaseLog m"
  "persistCalls (markAll fs m) = persistCalls m"
  using markAll_frame [of m fs] by (simp_all add: sameControl_def)

lemma computeLoop_returns_at_exit:
  "\<not> loopCondition m \<or> hitMaxSteps m \<Longrightarrow> computeLoop envs m = Some (m, Returns None)"
  by (cases envs) auto

lemma computeLoop_invariants:
  "computeLoop envs m = Some (m', r) \<Longrightarrow>
   Config m' = Config m \<and> checkpointFn m' = checkpointFn m
   \<and> lastCheckpoint (jobInfo m') = lastCheckpoint (jobInfo m)
   \<and> (\<exists>rest. phaseLog m' = phaseLog m @ rest)"
proof (induction envs arbitrary: m)
  case Nil
  then show ?case by (simp split: if_splits)
next
  case (Cons e es)
  show ?case
  proof (cases "loopCondition m \<and> \<not> hitMaxSteps m")
    case False
    then have "computeLoop (e # es) m = Some (m, Returns None)"
      using computeLoop_returns_at_exit [of m "e # es"] by blast
    with Cons.prems show ?thesis by simp
  next
    case True
    from computeLoop_step [OF _ _ Cons.prems] True
    obtain m1 r1 where
      p1: "executePhase PHASE_STEP_PREPARE (prepareEnv e) (markAll (failedBeforePrepare e) m) = Some (m1, r1)"
      and rest1: "(\<exists>s. r1 = Panics s \<and> m' = m1 \<and> r = Panics s) \<or>
    (\<exists>errs1 m2 r2. r1 = Returns errs1 \<and>
       executePhase PHASE_SUPERSTEP (superstepEnv e) (markAll (failedBeforeStep e) m1) = Some (m2, r2) \<and>
       ((\<exists>s. r2 = Panics s \<and> m' = m2 \<and> r = Panics s) \<or>
        (\<exists>errs2. r2 = Returns errs2 \<and>
           (if checkpointFn m2 (superstep (jobInfo m2))
            then (\<exists>err. persistError e = Some err \<and> m' = persistNoted m2 \<and> r = Returns (Some err))
                 \<or> (persistError e = None \<and> computeLoop es (nextSuperstep (persistNoted m2)) = Some (m', r))
            else computeLoop es (nextSuperstep m2) = Some (m', r)))))"
      by blast
    note f1 = executePhase_frame [OF p1]
    from rest1 show ?thesis
    proof (elim disjE exE conjE)
      fix s assume "r1 = Panics s" "m' = m1" "r = Panics s"
      then show ?thesis using f1 by simp
    next
      fix errs1 m2 r2 s
      assume p2: "executePhase PHASE_SUPERSTEP (superstepEnv e) (markAll (failedBeforeStep e) m1) = Some (m2, r2)"
        and "m' = m2"
      then show ?thesis using f1 executePhase_frame [OF p2] by simp
    next
      fix errs1 m2 r2 errs2
      assume p2: "executePhase PHASE_SUPERSTEP (superstepEnv e) (markAll (failedBeforeStep e) m1) = Some (m2, r2)"
        and c: "if checkpointFn m2 (superstep (jobInfo m2))
            then (\<exists>err. persistError e = Some err \<and> m' = persistNoted m2 \<and> r = Returns (Some err))
                 \<or> (persistError e = None \<and> computeLoop es (nextSuperstep (persistNoted m2)) = Some (m', r))
            else computeLoop es (nextSuperstep m2) = Some (m', r)"
      note f2 = executePhase_frame [OF p2]
      have m2: "Config m2 = Config m \<and> checkpointFn m2 = checkpointFn m
         \<and> lastCheckpoint (jobInfo m2) = lastCheckpoint (jobInfo m)
         \<and> phaseLog m2 = phaseLog m @ [PHASE_STEP_PREPARE, PHASE_SUPERSTEP]"
        using f1 f2 by simp
      from c consider
          (fail) "m' = persistNoted m2"
        | (go1) "computeLoop es (nextSuperstep (persistNoted m2)) = Some (m', r)"
        | (go2) "computeLoop es (nextSuperstep m2) = Some (m', r)"
        by (auto split: if_splits)
      then show ?thesis
      proof cases
        case fail
        then show ?thesis using m2 by (simp add: PersistMaster_def)
      next
        case go1
        from Cons.IH [OF this] show ?thesis using m2 by (auto simp: PersistMaster_def nextSuperstep_def)
      next
        case go2
        from Cons.IH [OF this] show ?thesis using m2 by (auto simp: nextSuperstep_def)
      qed
    qed
  qed
qed


lemma computeLoop_first_phase:
  assumes "loopCondition m" "\<not> hitMaxSteps m" "computeLoop envs m = Some (m', r)"
  shows "\<exists>rest. phaseLog m' = phaseLog m @ PHASE_STEP_PREPARE # rest"
proof (cases envs)
  case Nil
  with assms show ?thesis by simp
next
  case (Cons e es)
  from computeLoop_step [OF assms(1,2) assms(3) [unfolded Cons]]
  obtain m1 r1 where
    p1: "executePhase PHASE_STEP_PREPARE (prepareEnv e) (markAll (failedBeforePrepare e) m) = Some (m1, r1)"
    and rest1: "(\<exists>s. r1 = Panics s \<and> m' = m1 \<and> r = Panics s) \<or>
    (\<exists>errs1 m2 r2. r1 = Returns errs1 \<and>
       executePhase PHASE_SUPERSTEP (superstepEnv e) (markAll (failedBeforeStep e) m1) = Some (m2, r2) \<and>
       ((\<exists>s. r2 = Panics s \<and> m' = m2 \<and> r = Panics s) \<or>
        (\<exists>errs2. r2 = Returns errs2 \<and>
           (if checkpointFn m2 (superstep (jobInfo m2))
            then (\<exists>err. persistError e = Some err \<and> m' = persistNoted m2 \<and> r = Returns (Some err))
                 \<or> (persistError e = None \<and> computeLoop es (nextSuperstep (persistNoted m2)) = Some (m', r))
            else computeLoop es (nextSuperstep m2) = Some (m', r)))))"
    by blast
  have l1: "phaseLog m1 = phaseLog m @ [PHASE_STEP_PREPARE]"
    using executePhase_frame [OF p1] by simp
  from rest1 show ?thesis
  proof (elim disjE exE conjE)
    fix s assume "m' = m1"
    then show ?thesis using l1 by simp
  next
    fix errs1 m2 r2 s
    assume p2: "executePhase PHASE_SUPERSTEP (superstepEnv e) (markAll (failedBeforeStep e) m1) = Some (m2, r2)"
      and "m' = m2"
    then show ?thesis using l1 executePhase_frame [OF p2] by simp
  next
    fix errs1 m2 r2 errs2
    assume p2: "executePhase PHASE_SUPERSTEP (superstepEnv e) (markAll (failedBeforeStep e) m1) = Some (m2, r2)"
      and c: "if checkpointFn m2 (superstep (jobInfo m2))
            then (\<exists>err. persistError e = Some err \<and> m' = persistNoted m2 \<and> r = Returns (Some err))
                 \<or> (persistError e = None \<and> computeLoop es (nextSuperstep (persistNoted m2)) = Some (m', r))
            else computeLoop es (nextSuperstep m2) = Some (m', r)"
    have l2: "phaseLog m2 = phaseLog m @ [PHASE_STEP_PREPARE, PHASE_SUPERSTEP]"
      using l1 executePhase_frame [OF p2] by simp
    from c consider
        (fail) "m' = persistNoted m2"
      | (go1) "computeLoop es (nextSuperstep (persistNoted m2)) = Some (m', r)"
      | (go2) "computeLoop es (nextSuperstep m2) = Some (m', r)"
      by (auto split: if_splits)
    then show ?thesis
    proof cases
      case fail
      then show ?thesis using l2 by (simp add: PersistMaster_def)
    next
      case go1
      from computeLoop_invariants [OF this] show ?thesis
        using l2 by (auto simp: PersistMaster_def nextSuperstep_def)
    next
      case go2
      from computeLoop_invariants [OF this] show ?thesis
        using l2 by (auto simp: nextSuperstep_def)
    qed
  qed
qed

lemma computeLoop_normal_return:
  "computeLoop envs m = Some (m', Returns None) \<Longrightarrow>
   (\<not> loopCondition m' \<or> hitMaxSteps m')
   \<and> (\<exists>n. phaseLog m' = phaseLog m @ concat (replicate n [PHASE_STEP_PREPARE, PHASE_SUPERSTEP])
          \<and> superstep (jobInfo m') = superstep (jobInfo m) + of_nat n)"
proof (induction envs arbitrary: m)
  case Nil
  then have "m' = m" "\<not> loopCondition m \<or> hitMaxSteps m" by (auto split: if_splits)
  then have "(\<not> loopCondition m' \<or> hitMaxSteps m')
     \<and> phaseLog m' = phaseLog m @ concat (replicate 0 [PHASE_STEP_PREPARE, PHASE_SUPERSTEP])
     \<and> superstep (jobInfo m') = superstep (jobInfo m) + of_nat 0" by simp
  then show ?case by blast
next
  case (Cons e es)
  show ?case
  proof (cases "loopCondition m \<and> \<not> hitMaxSteps m")
    case False
    then have "computeLoop (e # es) m = Some (m, Returns None)"
      using computeLoop_returns_at_exit [of m "e # es"] by blast
    with Cons.prems False have "(\<not> loopCondition m' \<or> hitMaxSteps m')
     \<and> phaseLog m' = phaseLog m @ concat (replicate 0 [PHASE_STEP_PREPARE, PHASE_SUPERSTEP])
     \<and> superstep (jobInfo m') = superstep (jobInfo m) + of_nat 0" by auto
    then show ?thesis by blast
  next
    case True
    from computeLoop_step [OF _ _ Cons.prems] True
    obtain m1 m2 errs1 errs2 where
      p1: "executePhase PHASE_STEP_PREPARE (prepareEnv e) (markAll (failedBeforePrepare e) m) = Some (m1, Returns errs1)"
      and p2: "executePhase PHASE_SUPERSTEP (superstepEnv e) (markAll (failedBeforeStep e) m1) = Some (m2, Returns errs2)"
      and c: "if checkpointFn m2 (superstep (jobInfo m2))
            then persistError e = None \<and> computeLoop es (nextSuperstep (persistNoted m2)) = Some (m', Returns None)
            else computeLoop es (nextSuperstep m2) = Some (m', Returns None)"
      by (auto split: if_splits)
    have l2: "phaseLog m2 = phaseLog m @ [PHASE_STEP_PREPARE, PHASE_SUPERSTEP]"
      and s2: "superstep (jobInfo m2) = superstep (jobInfo m)"
      using executePhase_frame [OF p1] executePhase_frame [OF p2] by simp_all
    from c obtain m3 where go: "computeLoop es (nextSuperstep m3) = Some (m', Returns None)"
      and l3: "phaseLog m3 = phaseLog m2" and s3: "superstep (jobInfo m3) = superstep (jobInfo m2)"
      by (auto simp: PersistMaster_def split: if_splits)
    from Cons.IH [OF go] obtain n where
      e: "\<not> loopCondition m' \<or> hitMaxSteps m'"
      and n: "phaseLog m' = phaseLog (nextSuperstep m3) @ concat (replicate n [PHASE_STEP_PREPARE, PHASE_SUPERSTEP])"
        "superstep (jobInfo m') = superstep (jobInfo (nextSuperstep m3)) + of_nat n"
      by blast
    have "phaseLog m' = phaseLog m @ concat (replicate (Suc n) [PHASE_STEP_PREPARE, PHASE_SUPERSTEP])
        \<and> superstep (jobInfo m') = superstep (jobInfo m) + of_nat (Suc n)"
      using n l2 l3 s2 s3 by (simp add: nextSuperstep_def)
    with e show ?thesis by blast
  qed
qed

lemma loop_exit_fields:
  "(\<not> loopCondition m \<or> hitMaxSteps m) =
   ((activeVerts (phaseInfo (jobInfo m)) = 0 \<and> sentMsgs (phaseInfo (jobInfo m)) = 0)
    \<or> (MaxSteps (Config m) \<noteq> 0 \<and> MaxSteps (Config m) \<le> superstep (jobInfo m)))"
  by (auto simp: loopCondition_def hitMaxSteps_def word_neq_0_conv [symmetric])

lemma PersistMaster_pair: "PersistMaster answer m = (persistNoted m, answer)"
  by (simp add: PersistMaster_def)

lemma computeLoop_runs:
  assumes "loopCondition m" "\<not> hitMaxSteps m"
  shows "computeLoop [] m = None"
    and "executePhase PHASE_STEP_PREPARE (prepareEnv e) (markAll (failedBeforePrepare e) m) = None
         \<Longrightarrow> computeLoop (e # es) m = None"
    and "executePhase PHASE_STEP_PREPARE (prepareEnv e) (markAll (failedBeforePrepare e) m)
           = Some (m1, Panics s)
         \<Longrightarrow> computeLoop (e # es) m = Some (m1, Panics s)"
    and "executePhase PHASE_STEP_PREPARE (prepareEnv e) (markAll (failedBeforePrepare e) m)
           = Some (m1, Returns errs1)
         \<Longrightarrow> executePhase PHASE_SUPERSTEP (superstepEnv e) (markAll (failedBeforeStep e) m1) = None
         \<Longrightarrow> computeLoop (e # es) m = None"
    and "executePhase PHASE_STEP_PREPARE (prepareEnv e) (markAll (failedBeforePrepare e) m)
           = Some (m1, Returns errs1)
         \<Longrightarrow> executePhase PHASE_SUPERSTEP (superstepEnv e) (markAll (failedBeforeStep e) m1)
           = Some (m2, Panics s)
         \<Longrightarrow> computeLoop (e # es) m = Some (m2, Panics s)"
    and "executePhase PHASE_STEP_PREPARE (prepareEnv e) (markAll (failedBeforePrepare e) m)
           = Some (m1, Returns errs1)
         \<Longrightarrow> executePhase PHASE_SUPERSTEP (superstepEnv e) (markAll (failedBeforeStep e) m1)
           = Some (m2, Returns errs2)
         \<Longrightarrow> computeLoop (e # es) m =
              (if checkpointFn m2 (superstep (jobInfo m2))
               then (case persistError e of
                       Some err \<Rightarrow> Some (fst (PersistMaster (persistError e) m2), Returns (Some err))
                     | None \<Rightarrow> computeLoop es (nextSuperstep (fst (PersistMaster (persistError e) m2))))
               else computeLoop es (nextSuperstep m2))"
  using assms by (simp_all add: PersistMaster_def split: option.splits)

text \<open>
  C1, as amended.  The loop of \<open>compute\<close> stops at its head exactly when the
  committed \<open>activeVerts\<close> and \<open>sentMsgs\<close> are both 0, or \<open>MaxSteps\<close> is not 0
  and the superstep counter has reached it: in such a state the loop returns \<open>nil\<close>
  at once, with the state as it is.  In any other state the loop does not return
  before an iteration has run, and the iteration calls
  \<open>executePhase(PHASE_STEP_PREPARE)\<close> and then, on the state that call leaves,
  \<open>executePhase(PHASE_SUPERSTEP)\<close>.  A barrier that never closes keeps \<open>compute\<close>
  from returning; a panic of either call ends \<open>compute\<close> with that panic; the errors
  the calls return are dropped.  After the two calls, if \<open>checkpointFn\<close> holds of the
  superstep counter, \<open>PersistMaster\<close> is called, and an error of it is what
  \<open>compute\<close> returns; otherwise the loop goes on from the same state with the
  superstep counter advanced by one.  When \<open>compute\<close> returns \<open>nil\<close>, the condition
  above holds of the final state, the phases executed are \<open>n\<close> times
  \<open>PHASE_STEP_PREPARE\<close> followed by \<open>PHASE_SUPERSTEP\<close>, and the superstep counter
  is \<open>n\<close>.
\<close>

theorem compute_exit_condition:
  "((activeVerts (phaseInfo (jobInfo m)) = 0 \<and> sentMsgs (phaseInfo (jobInfo m)) = 0)
      \<or> (MaxSteps (Config m) \<noteq> 0 \<and> MaxSteps (Config m) \<le> superstep (jobInfo m))
    \<longrightarrow> computeLoop envs m = Some (m, Returns None))
   \<and> (\<not> ((activeVerts (phaseInfo (jobInfo m)) = 0 \<and> sentMsgs (phaseInfo (jobInfo m)) = 0)
          \<or> (MaxSteps (Config m) \<noteq> 0 \<and> MaxSteps (Config m) \<le> superstep (jobInfo m)))
      \<longrightarrow>
        computeLoop [] m = None
        \<and> (\<forall>e es.
              executePhase PHASE_STEP_PREPARE (prepareEnv e) (markAll (failedBeforePrepare e) m) = None
              \<longrightarrow> computeLoop (e # es) m = None)
        \<and> (\<forall>e es m1 s.
              executePhase PHASE_STEP_PREPARE (prepareEnv e) (markAll (failedBeforePrepare e) m)
                = Some (m1, Panics s)
              \<longrightarrow> computeLoop (e # es) m = Some (m1, Panics s))
        \<and> (\<forall>e es m1 errs1.
              executePhase PHASE_STEP_PREPARE (prepareEnv e) (markAll (failedBeforePrepare e) m)
                = Some (m1, Returns errs1)
              \<longrightarrow>
                (executePhase PHASE_SUPERSTEP (superstepEnv e) (markAll (failedBeforeStep e) m1) = None
                   \<longrightarrow> computeLoop (e # es) m = None)
                \<and> (\<forall>m2 s.
                      executePhase PHASE_SUPERSTEP (superstepEnv e) (markAll (failedBeforeStep e) m1)
                        = Some (m2, Panics s)
                      \<longrightarrow> computeLoop (e # es) m = Some (m2, Panics s))
                \<and> (\<forall>m2 errs2.
                      executePhase PHASE_SUPERSTEP (superstepEnv e) (markAll (failedBeforeStep e) m1)
                        = Some (m2, Returns errs2)
                      \<longrightarrow>
                        (\<not> checkpointFn m2 (superstep (jobInfo m2))
                           \<longrightarrow> computeLoop (e # es) m = computeLoop es (nextSuperstep m2))
                        \<and> (checkpointFn m2 (superstep (jobInfo m2)) \<and> persistError e = None
                           \<longrightarrow> computeLoop (e # es) m
                                 = computeLoop es (nextSuperstep (fst (PersistMaster None m2))))
                        \<and> (\<forall>err. checkpointFn m2 (superstep (jobInfo m2))
                                   \<and> persistError e = Some err
                           \<longrightarrow> computeLoop (e # es) m
                                 = Some (fst (PersistMaster (Some err) m2), Returns (Some err))))))
   \<and> (\<forall>m'. compute envs m = Some (m', Returns None) \<longrightarrow>
        ((activeVerts (phaseInfo (jobInfo m')) = 0 \<and> sentMsgs (phaseInfo (jobInfo m')) = 0)
          \<or> (MaxSteps (Config m) \<noteq> 0 \<and> MaxSteps (Config m) \<le> superstep (jobInfo m')))
        \<and> (\<exists>n. phaseLog m' = phaseLog m
                    @ concat (replicate n [PHASE_STEP_PREPARE, PHASE_SUPERSTEP])
               \<and> superstep (jobInfo m') = of_nat n))"
proof (intro conjI impI allI, goal_cases)
  case 1
  then show ?case
    using computeLoop_returns_at_exit [of m envs] loop_exit_fields [of m] by blast
next
  case 2
  then have "loopCondition m" "\<not> hitMaxSteps m" using loop_exit_fields [of m] by blast+
  then show ?case by (rule computeLoop_runs(1))
next
  case (3 e es)
  then have "loopCondition m" "\<not> hitMaxSteps m" using loop_exit_fields [of m] by blast+
  then show ?case using 3(2) by (rule computeLoop_runs(2))
next
  case (4 e es m1 s)
  then have "loopCondition m" "\<not> hitMaxSteps m" using loop_exit_fields [of m] by blast+
  then show ?case using 4(2) by (rule computeLoop_runs(3))
next
  case (5 e es m1 errs1)
  then have "loopCondition m" "\<not> hitMaxSteps m" using loop_exit_fields [of m] by blast+
  then show ?case using 5(2,3) by (rule computeLoop_runs(4))
next
  case (6 e es m1 errs1 m2 s)
  then have "loopCondition m" "\<not> hitMaxSteps m" using loop_exit_fields [of m] by blast+
  then show ?case using 6(2,3) by (rule computeLoop_runs(5))
next
  case (7 e es m1 errs1 m2 errs2)
  then have "loopCondition m" "\<not> hitMaxSteps m" using loop_exit_fields [of m] by blast+
  from computeLoop_runs(6) [OF this 7(2,3), of es] 7(4) show ?case by simp
next
  case (8 e es m1 errs1 m2 errs2)
  then have "loopCondition m" "\<not> hitMaxSteps m" using loop_exit_fields [of m] by blast+
  from computeLoop_runs(6) [OF this 8(2,3), of es] 8(4) show ?case by simp
next
  case (9 e es m1 errs1 m2 errs2 err)
  then have "loopCondition m" "\<not> hitMaxSteps m" using loop_exit_fields [of m] by blast+
  from computeLoop_runs(6) [OF this 9(2,3), of es] 9(4) show ?case by simp
next
  case (10 m')
  let ?m0 = "m\<lparr>jobInfo := (jobInfo m)\<lparr>superstep := 0\<rparr>\<rparr>"
  from 10 have l: "computeLoop envs ?m0 = Some (m', Returns None)" by (simp add: compute_def)
  from computeLoop_normal_return [OF l] computeLoop_invariants [OF l] loop_exit_fields [of m']
  show ?case by auto
next
  case (11 m')
  let ?m0 = "m\<lparr>jobInfo := (jobInfo m)\<lparr>superstep := 0\<rparr>\<rparr>"
  from 11 have l: "computeLoop envs ?m0 = Some (m', Returns None)" by (simp add: compute_def)
  from computeLoop_normal_return [OF l] show ?case by auto
qed

text \<open>
  The claim as it stands lets the loop stop whenever the superstep counter has reached
  \<open>MaxSteps\<close>.  With \<open>MaxSteps = 0\<close>, which the code takes for "no limit", that
  holds from the start, and yet the loop runs a superstep.
\<close>

theorem compute_runs_with_MaxSteps_zero:
  "MaxSteps (Config sampleMaster) \<le> 0
   \<and> map_option (phaseLog \<circ> fst) (compute [sampleStep 0] sampleMaster)
       = Some [PHASE_STEP_PREPARE, PHASE_SUPERSTEP]
   \<and> map_option (superstep \<circ> jobInfo \<circ> fst) (compute [sampleStep 0] sampleMaster) = Some 1
   \<and> map_option snd (compute [sampleStep 0] sampleMaster) = Some (Returns None)"
  by (simp add: sample_defs run_defs)

theorem compute_exit_condition_witness:
  "(\<exists>m'. compute [sampleStep 1, sampleStep 0] sampleMaster = Some (m', Returns None)
      \<and> activeVerts (phaseInfo (jobInfo m')) = 0 \<and> sentMsgs (phaseInfo (jobInfo m')) = 0
      \<and> superstep (jobInfo m') = 2
      \<and> phaseLog m' = [PHASE_STEP_PREPARE, PHASE_SUPERSTEP, PHASE_STEP_PREPARE, PHASE_SUPERSTEP])
   \<and> compute [sampleStep 1] sampleMaster = None
   \<and> (\<exists>m'. compute [(sampleStep 1)\<lparr>superstepEnv := lostPhase\<rparr>, sampleStep 0] sampleMaster
              = Some (m', Panics ''phase errors'')
         \<and> phaseLog m' = [PHASE_STEP_PREPARE, PHASE_SUPERSTEP])
   \<and> (\<exists>m'. compute [(sampleStep 1)\<lparr>persistError := Some ''disk full''\<rparr>, sampleStep 0]
                (sampleMaster\<lparr>checkpointFn := (\<lambda>s. True)\<rparr>)
              = Some (m', Returns (Some ''disk full''))
         \<and> superstep (jobInfo m') = 0
         \<and> map fst (persistCalls m') = [0])"
proof -
  define m0 where "m0 = sampleMaster\<lparr>jobInfo := (jobInfo sampleMaster)\<lparr>superstep := 0\<rparr>\<rparr>"
  have run0: "\<not> ((activeVerts (phaseInfo (jobInfo m0)) = 0 \<and> sentMsgs (phaseInfo (jobInfo m0)) = 0)
          \<or> (MaxSteps (Config m0) \<noteq> 0 \<and> MaxSteps (Config m0) \<le> superstep (jobInfo m0)))"
    by (simp add: m0_def sample_defs)
  note T0 = compute_exit_condition [of m0, THEN conjunct2, THEN conjunct1, rule_format, OF run0]
  \<comment> \<open>a run of two supersteps\<close>
  define e1 where "e1 = sampleStep 1"
  define a1 where "a1 = fst (the (executePhase PHASE_STEP_PREPARE (prepareEnv e1) (markAll (failedBeforePrepare e1) m0)))"
  define a2 where "a2 = fst (the (executePhase PHASE_SUPERSTEP (superstepEnv e1) (markAll (failedBeforeStep e1) a1)))"
  have p1: "executePhase PHASE_STEP_PREPARE (prepareEnv e1) (markAll (failedBeforePrepare e1) m0) = Some (a1, Returns [])"
    by (simp add: a1_def e1_def m0_def sample_defs run_defs)
  have p2: "executePhase PHASE_SUPERSTEP (superstepEnv e1) (markAll (failedBeforeStep e1) a1) = Some (a2, Returns [])"
    by (simp add: a2_def a1_def e1_def m0_def sample_defs run_defs)
  have c2: "\<not> checkpointFn a2 (superstep (jobInfo a2))"
    by (simp add: a2_def a1_def e1_def m0_def sample_defs run_defs)
  have step1: "computeLoop (e1 # es) m0 = computeLoop es (nextSuperstep a2)" for es
    using T0 [THEN conjunct2, THEN conjunct2, THEN conjunct2, rule_format, OF p1,
              THEN conjunct2, THEN conjunct2, rule_format, OF p2, THEN conjunct1, rule_format, OF c2] .
  define b0 where "b0 = nextSuperstep a2"
  have run1: "\<not> ((activeVerts (phaseInfo (jobInfo b0)) = 0 \<and> sentMsgs (phaseInfo (jobInfo b0)) = 0)
          \<or> (MaxSteps (Config b0) \<noteq> 0 \<and> MaxSteps (Config b0) \<le> superstep (jobInfo b0)))"
    by (simp add: b0_def a2_def a1_def e1_def m0_def sample_defs run_defs)
  note T1 = compute_exit_condition [of b0, THEN conjunct2, THEN conjunct1, rule_format, OF run1]
  have still: "computeLoop [] b0 = None" using T1 by (rule conjunct1)
  define e2 where "e2 = sampleStep 0"
  define b1 where "b1 = fst (the (executePhase PHASE_STEP_PREPARE (prepareEnv e2) (markAll (failedBeforePrepare e2) b0)))"
  define b2 where "b2 = fst (the (executePhase PHASE_SUPERSTEP (superstepEnv e2) (markAll (failedBeforeStep e2) b1)))"
  have q1: "executePhase PHASE_STEP_PREPARE (prepareEnv e2) (markAll (failedBeforePrepare e2) b0) = Some (b1, Returns [])"
    by (simp add: b1_def e2_def b0_def a2_def a1_def e1_def m0_def sample_defs run_defs)
  have q2: "executePhase PHASE_SUPERSTEP (superstepEnv e2) (markAll (failedBeforeStep e2) b1) = Some (b2, Returns [])"
    by (simp add: b2_def b1_def e2_def b0_def a2_def a1_def e1_def m0_def sample_defs run_defs)
  have d2: "\<not> checkpointFn b2 (superstep (jobInfo b2))"
    by (simp add: b2_def b1_def e2_def b0_def a2_def a1_def e1_def m0_def sample_defs run_defs)
  have step2: "computeLoop (e2 # es) b0 = computeLoop es (nextSuperstep b2)" for es
    using T1 [THEN conjunct2, THEN conjunct2, THEN conjunct2, rule_format, OF q1,
              THEN conjunct2, THEN conjunct2, rule_format, OF q2, THEN conjunct1, rule_format, OF d2] .
  define c0 where "c0 = nextSuperstep b2"
  have fin: "activeVerts (phaseInfo (jobInfo c0)) = 0" "sentMsgs (phaseInfo (jobInfo c0)) = 0"
    "superstep (jobInfo c0) = 2"
    "phaseLog c0 = [PHASE_STEP_PREPARE, PHASE_SUPERSTEP, PHASE_STEP_PREPARE, PHASE_SUPERSTEP]"
    by (simp_all add: c0_def b2_def b1_def e2_def b0_def a2_def a1_def e1_def m0_def sample_defs run_defs)
  have stop: "computeLoop [] c0 = Some (c0, Returns None)"
    using compute_exit_condition [of c0 "[]", THEN conjunct1] fin(1,2) by blast
  have w1: "compute [sampleStep 1, sampleStep 0] sampleMaster = Some (c0, Returns None)"
    unfolding compute_def m0_def [symmetric] e1_def [symmetric] e2_def [symmetric]
    unfolding step1 b0_def [symmetric] step2 c0_def [symmetric] by (rule stop)
  have w2: "compute [sampleStep 1] sampleMaster = None"
    unfolding compute_def m0_def [symmetric] e1_def [symmetric]
    unfolding step1 b0_def [symmetric] by (rule still)
  \<comment> \<open>a superstep that loses a worker\<close>
  define l1 where "l1 = (sampleStep 1)\<lparr>superstepEnv := lostPhase\<rparr>"
  define k1 where "k1 = fst (the (executePhase PHASE_STEP_PREPARE (prepareEnv l1) (markAll (failedBeforePrepare l1) m0)))"
  define k2 where "k2 = fst (the (executePhase PHASE_SUPERSTEP (superstepEnv l1) (markAll (failedBeforeStep l1) k1)))"
  have r1: "executePhase PHASE_STEP_PREPARE (prepareEnv l1) (markAll (failedBeforePrepare l1) m0) = Some (k1, Returns [])"
    by (simp add: k1_def l1_def m0_def sample_defs run_defs)
  have r2: "executePhase PHASE_SUPERSTEP (superstepEnv l1) (markAll (failedBeforeStep l1) k1) = Some (k2, Panics ''phase errors'')"
    by (simp add: k2_def k1_def l1_def m0_def sample_defs run_defs)
  have panic: "computeLoop (l1 # es) m0 = Some (k2, Panics ''phase errors'')" for es
    using T0 [THEN conjunct2, THEN conjunct2, THEN conjunct2, rule_format, OF r1,
              THEN conjunct2, THEN conjunct1, rule_format, OF r2] .
  have w3: "compute [(sampleStep 1)\<lparr>superstepEnv := lostPhase\<rparr>, sampleStep 0] sampleMaster
              = Some (k2, Panics ''phase errors'')"
    unfolding compute_def m0_def [symmetric] l1_def [symmetric] by (rule panic)
  have w3': "phaseLog k2 = [PHASE_STEP_PREPARE, PHASE_SUPERSTEP]"
    by (simp add: k2_def k1_def l1_def m0_def sample_defs run_defs)
  \<comment> \<open>a checkpoint that the persister refuses\<close>
  define n0 where "n0 = sampleMaster\<lparr>checkpointFn := (\<lambda>s. True)\<rparr>\<lparr>jobInfo := (jobInfo (sampleMaster\<lparr>checkpointFn := (\<lambda>s. True)\<rparr>))\<lparr>superstep := 0\<rparr>\<rparr>"
  have runn: "\<not> ((activeVerts (phaseInfo (jobInfo n0)) = 0 \<and> sentMsgs (phaseInfo (jobInfo n0)) = 0)
          \<or> (MaxSteps (Config n0) \<noteq> 0 \<and> MaxSteps (Config n0) \<le> superstep (jobInfo n0)))"
    by (simp add: n0_def sample_defs)
  note Tn = compute_exit_condition [of n0, THEN conjunct2, THEN conjunct1, rule_format, OF runn]
  define f1 where "f1 = (sampleStep 1)\<lparr>persistError := Some ''disk full''\<rparr>"
  define g1 where "g1 = fst (the (executePhase PHASE_STEP_PREPARE (prepareEnv f1) (markAll (failedBeforePrepare f1) n0)))"
  define g2 where "g2 = fst (the (executePhase PHASE_SUPERSTEP (superstepEnv f1) (markAll (failedBeforeStep f1) g1)))"
  have s1: "executePhase PHASE_STEP_PREPARE (prepareEnv f1) (markAll (failedBeforePrepare f1) n0) = Some (g1, Returns [])"
    by (simp add: g1_def f1_def n0_def sample_defs run_defs)
  have s2: "executePhase PHASE_SUPERSTEP (superstepEnv f1) (markAll (failedBeforeStep f1) g1) = Some (g2, Returns [])"
    by (simp add: g2_def g1_def f1_def n0_def sample_defs run_defs)
  have s3: "checkpointFn g2 (superstep (jobInfo g2)) \<and> persistError f1 = Some ''disk full''"
    by (simp add: g2_def g1_def f1_def n0_def sample_defs run_defs)
  have refused: "computeLoop (f1 # es) n0
      = Some (fst (PersistMaster (Some ''disk full'') g2), Returns (Some ''disk full''))" for es
    using Tn [THEN conjunct2, THEN conjunct2, THEN conjunct2, rule_format, OF s1,
              THEN conjunct2, THEN conjunct2, rule_format, OF s2, THEN conjunct2, THEN conjunct2,
              rule_format, OF s3] .
  have w4: "compute [(sampleStep 1)\<lparr>persistError := Some ''disk full''\<rparr>, sampleStep 0]
                (sampleMaster\<lparr>checkpointFn := (\<lambda>s. True)\<rparr>)
              = Some (fst (PersistMaster (Some ''disk full'') g2), Returns (Some ''disk full''))"
    unfolding compute_def n0_def [symmetric] f1_def [symmetric] by (rule refused)
  have w4': "superstep (jobInfo (fst (PersistMaster (Some ''disk full'') g2))) = 0"
    "map fst (persistCalls (fst (PersistMaster (Some ''disk full'') g2))) = [0]"
    by (simp_all add: g2_def g1_def f1_def n0_def sample_defs run_defs)
  have A: "\<exists>m'. compute [sampleStep 1, sampleStep 0] sampleMaster = Some (m', Returns None)
      \<and> activeVerts (phaseInfo (jobInfo m')) = 0 \<and> sentMsgs (phaseInfo (jobInfo m')) = 0
      \<and> superstep (jobInfo m') = 2
      \<and> phaseLog m' = [PHASE_STEP_PREPARE, PHASE_SUPERSTEP, PHASE_STEP_PREPARE, PHASE_SUPERSTEP]"
    by (rule exI [of _ c0]) (intro conjI w1 fin)
  have B: "\<exists>m'. compute [(sampleStep 1)\<lparr>superstepEnv := lostPhase\<rparr>, sampleStep 0] sampleMaster
              = Some (m', Panics ''phase errors'')
         \<and> phaseLog m' = [PHASE_STEP_PREPARE, PHASE_SUPERSTEP]"
    by (rule exI [of _ k2]) (intro conjI w3 w3')
  have C: "\<exists>m'. compute [(sampleStep 1)\<lparr>persistError := Some ''disk full''\<rparr>, sampleStep 0]
                (sampleMaster\<lparr>checkpointFn := (\<lambda>s. True)\<rparr>)
              = Some (m', Returns (Some ''disk full''))
         \<and> superstep (jobInfo m') = 0
         \<and> map fst (persistCalls m') = [0]"
    by (rule exI [of _ "fst (PersistMaster (Some ''disk full'') g2)"]) (intro conjI w4 w4')
  from A w2 B C show ?thesis by (intro conjI)
qed

section \<open>Checkpoints\<close>

lemma compute_keeps_lastCheckpoint:
  "compute envs m = Some (m', r) \<Longrightarrow> lastCheckpoint (jobInfo m') = lastCheckpoint (jobInfo m)"
  using computeLoop_invariants [of envs "m\<lparr>jobInfo := (jobInfo m)\<lparr>superstep := 0\<rparr>\<rparr>" m' r]
  by (simp add: compute_def)

text \<open>
  C7.  With a checkpoint wanted at superstep 1, \<open>compute\<close> runs the supersteps 0
  and 1 and returns.  It has called \<open>PersistMaster\<close> once, for superstep 1 and with
  the partition map, and \<open>lastCheckpoint\<close> is still 0.
\<close>

theorem compute_persists_but_keeps_lastCheckpoint:
  "map_option (persistCalls \<circ> fst) (compute [sampleStep 1, sampleStep 0] checkpointingMaster)
     = Some [(1, samplePartitions)]
   \<and> map_option (lastCheckpoint \<circ> jobInfo \<circ> fst)
       (compute [sampleStep 1, sampleStep 0] checkpointingMaster) = Some 0
   \<and> map_option (superstep \<circ> jobInfo \<circ> fst)
       (compute [sampleStep 1, sampleStep 0] checkpointingMaster) = Some 2
   \<and> map_option snd (compute [sampleStep 1, sampleStep 0] checkpointingMaster)
       = Some (Returns None)"
  by (simp add: sample_defs run_defs)

section \<open>Summaries of another job or phase\<close>

text \<open>
  C5.  The master runs \<open>PHASE_SUPERSTEP\<close> of the job \<open>job\<close>; the summary of the
  worker \<open>a:1\<close> names the job \<open>another job\<close> and the phase \<open>PHASE_LOAD_DATA\<close>.
  The barrier counts it: \<open>executePhase\<close> returns without an error and the 5 active
  vertices of that summary are committed.
\<close>

theorem executePhase_counts_stray_summary:
  "map_option snd (executePhase PHASE_SUPERSTEP strayPhase sampleMaster) = Some (Returns [])
   \<and> map_option (activeVerts \<circ> phaseInfo \<circ> jobInfo \<circ> fst)
       (executePhase PHASE_SUPERSTEP strayPhase sampleMaster) = Some 5
   \<and> map_option (map_prod (activeVerts) id)
       (barrier sampleMaster (arrivals strayPhase) newPhaseInfo) = Some (5, [])"
  by (simp add: sample_defs run_defs PHASE_LOAD_DATA_def)

section \<open>Registration\<close>



section \<open>The registration window\<close>

lemma RegisterWorker_frame:
  "Config (fst (RegisterWorker h p m)) = Config m
   \<and> jobInfo (fst (RegisterWorker h p m)) = jobInfo m
   \<and> (finite (dom (workerPool m)) \<longrightarrow> finite (dom (workerPool (fst (RegisterWorker h p m)))))"
  by (simp add: RegisterWorker_def Let_def)

lemma served_frame:
  "Config (served calls m) = Config m \<and> jobInfo (served calls m) = jobInfo m
   \<and> (finite (dom (workerPool m)) \<longrightarrow> finite (dom (workerPool (served calls m))))"
proof (induction calls arbitrary: m)
  case Nil
  show ?case by (simp add: served_def)
next
  case (Cons c calls)
  obtain h p where c: "c = (h, p)" by (cases c)
  have "served (c # calls) m = served calls (fst (RegisterWorker h p m))"
    using c by (simp add: served_def)
  then show ?case using Cons.IH [of "fst (RegisterWorker h p m)"] RegisterWorker_frame [of h p m]
    by simp
qed

lemma registerLoop_result:
  "registerLoop timer ticks m = Some m' \<Longrightarrow>
   Config m' = Config m \<and> jobInfo m' = jobInfo m
   \<and> (finite (dom (workerPool m)) \<longrightarrow> finite (dom (workerPool m')))"
proof (induction ticks arbitrary: timer m)
  case Nil
  then show ?case by (simp split: if_splits)
next
  case (Cons calls ticks)
  show ?case
  proof (cases "stillWaiting timer m")
    case False
    with Cons.prems show ?thesis by simp
  next
    case True
    with Cons.prems have "registerLoop (timer + 1000000000) ticks (served calls m) = Some m'" by simp
    from Cons.IH [OF this] show ?thesis using served_frame [of calls m] by simp
  qed
qed

lemma registerLoop_returns_iff:
  "(registerLoop timer ticks m \<noteq> None) =
   (\<exists>n\<le>length ticks. \<not> stillWaiting (timer + of_nat n * 1000000000) (foldl (\<lambda>m calls. served calls m) m (take n ticks)))"
proof (induction ticks arbitrary: timer m)
  case Nil
  show ?case by simp
next
  case (Cons calls ticks)
  show ?case
  proof (cases "stillWaiting timer m")
    case False
    then have "\<not> stillWaiting (timer + of_nat 0 * 1000000000) (foldl (\<lambda>m calls. served calls m) m (take 0 (calls # ticks)))"
      by simp
    then have "\<exists>n\<le>length (calls # ticks). \<not> stillWaiting (timer + of_nat n * 1000000000) (foldl (\<lambda>m calls. served calls m) m (take n (calls # ticks)))"
      by blast
    then show ?thesis using False by simp
  next
    case True
    have "(\<exists>n\<le>length (calls # ticks). \<not> stillWaiting (timer + of_nat n * 1000000000) (foldl (\<lambda>m calls. served calls m) m (take n (calls # ticks))))
        = (\<exists>n\<le>length ticks. \<not> stillWaiting (timer + of_nat (Suc n) * 1000000000) (foldl (\<lambda>m calls. served calls m) m (take (Suc n) (calls # ticks))))"
      (is "?L = ?R")
    proof
      assume ?L
      then obtain n where n: "n \<le> length (calls # ticks)"
        "\<not> stillWaiting (timer + of_nat n * 1000000000) (foldl (\<lambda>m calls. served calls m) m (take n (calls # ticks)))"
        by blast
      with True have "n \<noteq> 0" by (cases n) auto
      then obtain k where "n = Suc k" by (cases n) auto
      with n show ?R by auto
    next
      assume ?R
      then obtain k where "k \<le> length ticks" 
        "\<not> stillWaiting (timer + of_nat (Suc k) * 1000000000) (foldl (\<lambda>m calls. served calls m) m (take (Suc k) (calls # ticks)))"
        by blast
      then have "Suc k \<le> length (calls # ticks) \<and> \<not> stillWaiting (timer + of_nat (Suc k) * 1000000000) (foldl (\<lambda>m calls. served calls m) m (take (Suc k) (calls # ticks)))"
        by simp
      then show ?L by blast
    qed
    then show ?thesis using True Cons.IH [of "timer + 1000000000" "served calls m"]
      by (simp add: algebra_simps)
  qed
qed

lemma served_Nil [simp]: "served [] m = m"
  by (simp add: served_def)

lemma registerLoop_idle:
  "0 < MinWorkers (Config m) \<Longrightarrow>
   (of_nat (card (dom (workerPool m))) :: uint64) < MinWorkers (Config m) \<Longrightarrow>
   registerLoop timer (replicate n []) m = None"
  by (induction n arbitrary: timer) (simp_all add: stillWaiting_def)

lemma registerLoop_closed:
  "registerLoop timer ticks m = Some m' \<Longrightarrow> \<exists>t. \<not> stillWaiting t m'"
proof (induction ticks arbitrary: timer m)
  case Nil
  then show ?case by (auto split: if_splits)
next
  case (Cons calls ticks)
  then show ?case by (cases "stillWaiting timer m") auto
qed

lemma registerWorkers_never_below_MinWorkers:
  assumes "registerWorkers ticks m = Some (m', r)"
  shows "\<not> (of_nat (card (dom (workerPool m'))) :: uint64) < MinWorkers (Config m')"
    and "(r \<noteq> None) = (dom (workerPool m') = {})"
proof -
  from assms obtain m1 where l: "registerLoop 0 ticks (openRegistration m) = Some m1"
    and m': "m' = m1\<lparr>jobInfo := (jobInfo m1)\<lparr>canRegister := False\<rparr>\<rparr>"
    by (auto simp: registerWorkers_def Let_def split: option.splits if_splits)
  from registerLoop_closed [OF l] obtain t where "\<not> stillWaiting t m1" by blast
  then have "\<not> (0 < MinWorkers (Config m1)
      \<and> (of_nat (card (dom (workerPool m1))) :: uint64) < MinWorkers (Config m1))"
    by (simp add: stillWaiting_def)
  moreover have "\<not> (of_nat (card (dom (workerPool m1))) :: uint64) < MinWorkers (Config m1)"
    if "\<not> 0 < MinWorkers (Config m1)"
  proof -
    from that have "MinWorkers (Config m1) = 0" by (simp add: word_neq_0_conv [symmetric])
    then show ?thesis by simp
  qed
  ultimately have nb: "\<not> (of_nat (card (dom (workerPool m1))) :: uint64) < MinWorkers (Config m1)"
    by blast
  then show "\<not> (of_nat (card (dom (workerPool m'))) :: uint64) < MinWorkers (Config m')"
    using m' by simp
  have "finite (dom (workerPool m1))"
    using registerLoop_result [OF l] by (simp add: openRegistration_def)
  then have "(card (dom (workerPool m1)) = 0) = (dom (workerPool m1) = {})" by simp
  then show "(r \<noteq> None) = (dom (workerPool m') = {})"
    using assms l m' nb by (auto simp: registerWorkers_def Let_def split: if_splits)
qed

text \<open>
  C6.  The claim has \<open>registerWorkers\<close> fail when the window closes with the pool
  below \<open>MinWorkers\<close> after a positive wait.  With \<open>MinWorkers = 3\<close> and
  \<open>RegisterWait\<close> two seconds, the workers \<open>a:1\<close> and \<open>b:1\<close> register in the
  first two seconds and no one after them.  However many seconds go by,
  \<open>registerWorkers\<close> has not returned: its loop goes on waiting while the pool is
  below \<open>MinWorkers\<close>, whatever \<open>RegisterWait\<close> says.  The same job returns \<open>nil\<close>
  once a third worker has registered, and not before the two seconds are over; with
  \<open>MinWorkers = 0\<close> and no worker at all it returns the error after the two seconds,
  and not before.
\<close>

theorem registerWorkers_waits_for_MinWorkers:
  "(\<forall>n. registerWorkers ([[(''a'', ''1'')], [(''b'', ''1'')]] @ replicate n []) scenarioMaster = None)
   \<and> map_option snd
        (registerWorkers [[(''a'', ''1'')], [(''b'', ''1'')], [], [(''c'', ''1'')]] scenarioMaster)
     = Some None
   \<and> registerWorkers [[(''a'', ''1''), (''b'', ''1''), (''c'', ''1'')]] scenarioMaster = None
   \<and> map_option snd (registerWorkers [[], []]
        (sampleMaster\<lparr>Config := sampleConfig\<lparr>MinWorkers := 0, RegisterWait := 2000000000\<rparr>\<rparr>))
     = Some (Some (errorsNew ''Not enough workers registered''))
   \<and> registerWorkers [[]]
        (sampleMaster\<lparr>Config := sampleConfig\<lparr>MinWorkers := 0, RegisterWait := 2000000000\<rparr>\<rparr>)
     = None"
proof -
  have never: "registerWorkers ([[(''a'', ''1'')], [(''b'', ''1'')]] @ replicate n []) scenarioMaster
      = None" for n
  proof -
    define m0 where "m0 = openRegistration scenarioMaster"
    define m1 where "m1 = served [(''a'', ''1'')] m0"
    define m2 where "m2 = served [(''b'', ''1'')] m1"
    have c: "MinWorkers (Config m2) = 3" "dom (workerPool m2) = {''a:1'', ''b:1''}"
      by (auto simp: m2_def m1_def m0_def openRegistration_def served_def RegisterWorker_def
            JoinHostPort_def scenarioMaster_def sampleMaster_def sampleConfig_def Let_def)
    have w0: "stillWaiting 0 m0"
      by (simp add: stillWaiting_def m0_def openRegistration_def scenarioMaster_def
            sampleMaster_def sampleConfig_def)
    have w1: "stillWaiting (0 + 1000000000) m1"
      by (simp add: stillWaiting_def m1_def m0_def openRegistration_def served_def
            RegisterWorker_def JoinHostPort_def scenarioMaster_def sampleMaster_def
            sampleConfig_def Let_def)
    have "registerLoop (0 + 1000000000 + 1000000000) (replicate n []) m2 = None"
      by (rule registerLoop_idle) (simp_all add: c)
    then have "registerLoop 0 ([[(''a'', ''1'')], [(''b'', ''1'')]] @ replicate n []) m0 = None"
      using w0 w1 by (simp add: m1_def [symmetric] m2_def [symmetric])
    then show ?thesis by (simp add: registerWorkers_def m0_def)
  qed
  have third: "map_option snd
        (registerWorkers [[(''a'', ''1'')], [(''b'', ''1'')], [], [(''c'', ''1'')]] scenarioMaster)
      = Some None"
    by (simp add: registerWorkers_def openRegistration_def served_def RegisterWorker_def
          stillWaiting_def JoinHostPort_def scenarioMaster_def sampleMaster_def sampleConfig_def
          Let_def)
  have early: "registerWorkers [[(''a'', ''1''), (''b'', ''1''), (''c'', ''1'')]] scenarioMaster
      = None"
    by (simp add: registerWorkers_def openRegistration_def served_def RegisterWorker_def
          stillWaiting_def JoinHostPort_def scenarioMaster_def sampleMaster_def sampleConfig_def
          Let_def)
  have empty: "map_option snd (registerWorkers [[], []]
        (sampleMaster\<lparr>Config := sampleConfig\<lparr>MinWorkers := 0, RegisterWait := 2000000000\<rparr>\<rparr>))
      = Some (Some (errorsNew ''Not enough workers registered''))"
    by (simp add: registerWorkers_def openRegistration_def served_def RegisterWorker_def
          stillWaiting_def JoinHostPort_def sampleMaster_def sampleConfig_def Let_def)
  have timed: "registerWorkers [[]]
        (sampleMaster\<lparr>Config := sampleConfig\<lparr>MinWorkers := 0, RegisterWait := 2000000000\<rparr>\<rparr>)
      = None"
    by (simp add: registerWorkers_def openRegistration_def served_def RegisterWorker_def
          stillWaiting_def JoinHostPort_def sampleMaster_def sampleConfig_def Let_def)
  from never third early empty timed show ?thesis by (intro conjI allI)
qed

section \<open>Failed workers and their partitions\<close>

lemma isFailed_upd_other: "hp \<noteq> x \<Longrightarrow> isFailed (pool(hp := v)) x = isFailed pool x"
  by (simp add: isFailed_def)

lemma purgeLoop_result:
  "distinct ks \<Longrightarrow>
   purgeLoop ks (pool, fw) =
     ((\<lambda>hp. if hp \<in> set ks \<and> isFailed pool hp then None else pool hp),
      fw @ map (the \<circ> pool) (filter (isFailed pool) ks))"
proof (induction ks arbitrary: pool fw)
  case Nil
  show ?case by simp
next
  case (Cons hp ks)
  then have d: "distinct ks" and n: "hp \<notin> set ks" by auto
  show ?case
  proof (cases "isFailed pool hp")
    case False
    then have "purgeLoop (hp # ks) (pool, fw) = purgeLoop ks (pool, fw)"
      by (auto simp: isFailed_def split: option.splits)
    then show ?thesis using Cons.IH [OF d, of pool fw] False by (auto simp: fun_eq_iff)
  next
    case True
    then obtain info where i: "pool hp = Some info" "failed info"
      by (auto simp: isFailed_def split: option.splits)
    have same: "isFailed (pool(hp := None)) x = isFailed pool x" if "x \<in> set ks" for x
      using n that by (auto simp: isFailed_def)
    have A: "filter (isFailed (pool(hp := None))) ks = filter (isFailed pool) ks"
      using same by (intro filter_cong) auto
    have B: "map (the \<circ> pool(hp := None)) (filter (isFailed pool) ks)
        = map (the \<circ> pool) (filter (isFailed pool) ks)"
      using n by (intro map_cong) auto
    have C: "(\<lambda>x. if x \<in> set ks \<and> isFailed (pool(hp := None)) x then None else (pool(hp := None)) x)
        = (\<lambda>x. if x \<in> set (hp # ks) \<and> isFailed pool x then None else pool x)"
      using n True same by (auto simp: fun_eq_iff)
    have "purgeLoop (hp # ks) (pool, fw) = purgeLoop ks (pool(hp := None), fw @ [info])"
      using i by simp
    also have "\<dots> = ((\<lambda>x. if x \<in> set ks \<and> isFailed (pool(hp := None)) x then None else (pool(hp := None)) x),
        (fw @ [info]) @ map (the \<circ> pool(hp := None)) (filter (isFailed (pool(hp := None))) ks))"
      by (rule Cons.IH [OF d])
    also have "\<dots> = ((\<lambda>x. if x \<in> set (hp # ks) \<and> isFailed pool x then None else pool x),
        (fw @ [info]) @ map (the \<circ> pool) (filter (isFailed pool) ks))"
      by (simp only: A B C)
    also have "(fw @ [info]) @ map (the \<circ> pool) (filter (isFailed pool) ks)
        = fw @ map (the \<circ> pool) (filter (isFailed pool) (hp # ks))"
      using True i by simp
    finally show ?thesis .
  qed
qed

lemma purgeLoop_enumerated:
  assumes "enumerates ks (dom pool)"
  shows "purgeLoop ks (pool, []) = (liveWorkers pool, map (the \<circ> pool) (filter (isFailed pool) ks))"
proof -
  have "isFailed pool hp \<Longrightarrow> hp \<in> set ks" for hp
    using assms by (auto simp: enumerates_def isFailed_def split: option.splits)
  then have "(\<lambda>hp. if hp \<in> set ks \<and> isFailed pool hp then None else pool hp) = liveWorkers pool"
    by (auto simp: fun_eq_iff liveWorkers_def)
  then show ?thesis using assms purgeLoop_result [of ks pool "[]"] by (simp add: enumerates_def)
qed

lemma moveLoop_result:
  "moveLoop moveId newOwner pids pm =
     (\<lambda>pid. if pid \<in> set pids \<and> pm pid = Some moveId then Some newOwner else pm pid)"
proof (induction pids arbitrary: pm)
  case Nil
  show ?case by simp
next
  case (Cons pid pids)
  show ?case
  proof (cases "pm pid = Some moveId")
    case True
    then have step: "moveLoop moveId newOwner (pid # pids) pm
        = moveLoop moveId newOwner pids (pm(pid \<mapsto> newOwner))" by simp
    have "(\<lambda>q. if q \<in> set pids \<and> (pm(pid \<mapsto> newOwner)) q = Some moveId then Some newOwner
                else (pm(pid \<mapsto> newOwner)) q)
        = (\<lambda>q. if q \<in> set (pid # pids) \<and> pm q = Some moveId then Some newOwner else pm q)"
      using True by (auto simp: fun_eq_iff)
    then show ?thesis unfolding step Cons.IH [of "pm(pid \<mapsto> newOwner)"] .
  next
    case False
    then have "moveLoop moveId newOwner (pid # pids) pm = moveLoop moveId newOwner pids pm"
      by (auto split: option.splits)
    moreover have "(\<lambda>q. if q \<in> set pids \<and> pm q = Some moveId then Some newOwner else pm q)
        = (\<lambda>q. if q \<in> set (pid # pids) \<and> pm q = Some moveId then Some newOwner else pm q)"
      using False by (auto simp: fun_eq_iff)
    ultimately show ?thesis using Cons.IH [of pm] by simp
  qed
qed

lemma firstOther_in:
  "ks \<noteq> [] \<Longrightarrow> moveId \<notin> set ks \<Longrightarrow> firstOther moveId ks \<in> set ks"
  by (cases ks) auto

lemma moveAll_owners:
  assumes "\<forall>j. dom (partitionMap m) \<subseteq> set (pidOrder ord j)"
      and "\<forall>j. set (ownerOrder ord j) = L" and "L \<noteq> {}"
      and "\<forall>x\<in>set (moveIds infos). x \<notin> L"
  shows "dom (partitionMap (moveAll ord i infos m)) = dom (partitionMap m)
    \<and> (\<forall>pid w. partitionMap m pid = Some w \<longrightarrow>
          (if w \<in> set (moveIds infos)
           then \<exists>w'\<in>L. partitionMap (moveAll ord i infos m) pid = Some w'
           else partitionMap (moveAll ord i infos m) pid = Some w))"
  using assms
proof (induction infos arbitrary: i m)
  case Nil
  show ?case by (simp add: moveIds_def)
next
  case (Cons info infos)
  let ?id = "JoinHostPort (host info) (port info)"
  let ?new = "firstOther ?id (ownerOrder ord i)"
  let ?m1 = "movePartitions (ownerOrder ord i) (pidOrder ord i) ?id m"
  have idL: "?id \<notin> L" using Cons.prems(4) by (simp add: moveIds_def)
  have "set (ownerOrder ord i) = L" using Cons.prems(2) by blast
  then have "ownerOrder ord i \<noteq> []" using Cons.prems(3) by auto
  then have new: "?new \<in> L" using firstOther_in [of "ownerOrder ord i" ?id] idL Cons.prems(2) by auto
  have pm1: "partitionMap ?m1 = (\<lambda>pid. if partitionMap m pid = Some ?id then Some ?new else partitionMap m pid)"
    using Cons.prems(1) by (auto simp: movePartitions_def moveLoop_result fun_eq_iff)
  then have dom1: "dom (partitionMap ?m1) = dom (partitionMap m)"
    by (auto simp: dom_def)
  have rest: "\<forall>x\<in>set (moveIds infos). x \<notin> L" using Cons.prems(4) by (simp add: moveIds_def)
  have IH: "dom (partitionMap (moveAll ord (Suc i) infos ?m1)) = dom (partitionMap ?m1)
    \<and> (\<forall>pid w. partitionMap ?m1 pid = Some w \<longrightarrow>
          (if w \<in> set (moveIds infos)
           then \<exists>w'\<in>L. partitionMap (moveAll ord (Suc i) infos ?m1) pid = Some w'
           else partitionMap (moveAll ord (Suc i) infos ?m1) pid = Some w))"
    using Cons.IH [of ?m1 "Suc i"] Cons.prems(1,2,3) rest dom1 by simp
  have "if w \<in> set (moveIds (info # infos))
           then \<exists>w'\<in>L. partitionMap (moveAll ord i (info # infos) m) pid = Some w'
           else partitionMap (moveAll ord i (info # infos) m) pid = Some w"
    if w: "partitionMap m pid = Some w" for pid w
  proof (cases "w = ?id")
    case True
    then have "partitionMap ?m1 pid = Some ?new" using w pm1 by simp
    moreover have "?new \<notin> set (moveIds infos)" using new rest by auto
    ultimately have "partitionMap (moveAll ord (Suc i) infos ?m1) pid = Some ?new"
      using IH by auto
    then show ?thesis using True new by (auto simp: moveIds_def)
  next
    case False
    then have "partitionMap ?m1 pid = Some w" using w pm1 by simp
    then show ?thesis using IH False by (auto simp: moveIds_def)
  qed
  then have Q: "\<forall>pid w. partitionMap m pid = Some w \<longrightarrow>
          (if w \<in> set (moveIds (info # infos))
           then \<exists>w'\<in>L. partitionMap (moveAll ord i (info # infos) m) pid = Some w'
           else partitionMap (moveAll ord i (info # infos) m) pid = Some w)"
    by blast
  have D: "dom (partitionMap (moveAll ord i (info # infos) m)) = dom (partitionMap m)"
    using IH dom1 by simp
  show ?case using D Q by blast
qed


lemma dom_liveWorkers:
  "dom (liveWorkers pool) = {hp. \<exists>info. pool hp = Some info \<and> \<not> failed info}"
  by (auto simp: liveWorkers_def isFailed_def split: option.splits if_splits)

lemma moveIds_failed:
  assumes "\<forall>hp info. pool hp = Some info \<longrightarrow> JoinHostPort (host info) (port info) = hp"
  shows "moveIds (map (the \<circ> pool) (filter (isFailed pool) ks)) = filter (isFailed pool) ks"
proof -
  have "JoinHostPort (host (the (pool hp))) (port (the (pool hp))) = hp" if "isFailed pool hp" for hp
    using that assms by (auto simp: isFailed_def split: option.splits)
  then have "map ((\<lambda>info. JoinHostPort (host info) (port info)) \<circ> (the \<circ> pool))
      (filter (isFailed pool) ks) = filter (isFailed pool) ks"
    by (intro map_idI) simp
  then show ?thesis by (simp add: moveIds_def)
qed

text \<open>
  C8.  Let every record of the pool be stored under the \<open>hostPort\<close> of its host and
  port (as \<open>RegisterWorker\<close> stores it), let every partition be owned by a worker of
  the pool, and let the loops run over the maps they range over.  Then
  \<open>purgeFailedWorkers\<close> leaves in the pool exactly the workers not marked as failed.
  If there is such a worker, it returns no error, the partition map has the keys it
  had, every partition is owned by a worker that is in the pool and not marked as
  failed, and every partition whose owner was not marked as failed has kept its owner.
  If there is none, it returns the error \<open>no workers left\<close> and the partition map is
  as it was.
\<close>

theorem purgeFailedWorkers_reassigns:
  assumes keys: "\<forall>hp info. workerPool m hp = Some info \<longrightarrow> JoinHostPort (host info) (port info) = hp"
      and owners: "\<forall>pid w. partitionMap m pid = Some w \<longrightarrow> w \<in> dom (workerPool m)"
      and pool: "enumerates (poolOrder ord) (dom (workerPool m))"
      and others: "\<forall>i. enumerates (ownerOrder ord i)
                         {hp. \<exists>info. workerPool m hp = Some info \<and> \<not> failed info}"
      and pids: "\<forall>i. enumerates (pidOrder ord i) (dom (partitionMap m))"
      and result: "purgeFailedWorkers ord m = (m', r)"
  shows "workerPool m' =
           (\<lambda>hp. case workerPool m hp of
                    None \<Rightarrow> None
                  | Some info \<Rightarrow> if failed info then None else Some info)
     \<and> ((\<exists>hp info. workerPool m hp = Some info \<and> \<not> failed info) \<longrightarrow>
          r = None
          \<and> dom (partitionMap m') = dom (partitionMap m)
          \<and> (\<forall>pid w. partitionMap m' pid = Some w \<longrightarrow>
                (\<exists>info. workerPool m' w = Some info \<and> \<not> failed info))
          \<and> (\<forall>pid w info. partitionMap m pid = Some w \<and> workerPool m w = Some info
                 \<and> \<not> failed info \<longrightarrow> partitionMap m' pid = Some w))
     \<and> (\<not> (\<exists>hp info. workerPool m hp = Some info \<and> \<not> failed info) \<longrightarrow>
          r = Some (errorsNew ''no workers left'') \<and> partitionMap m' = partitionMap m)"
proof -
  let ?pool = "workerPool m"
  let ?L = "{hp. \<exists>info. ?pool hp = Some info \<and> \<not> failed info}"
  let ?fw = "map (the \<circ> ?pool) (filter (isFailed ?pool) (poolOrder ord))"
  let ?m1 = "m\<lparr>workerPool := liveWorkers ?pool\<rparr>"
  have loop: "purgeLoop (poolOrder ord) (?pool, []) = (liveWorkers ?pool, ?fw)"
    using purgeLoop_enumerated [OF pool] .
  have live: "liveWorkers ?pool =
           (\<lambda>hp. case ?pool hp of None \<Rightarrow> None | Some info \<Rightarrow> if failed info then None else Some info)"
    by (auto simp: fun_eq_iff liveWorkers_def isFailed_def split: option.splits)
  have domL: "dom (liveWorkers ?pool) = ?L" by (rule dom_liveWorkers)
  have "dom ?pool = set (poolOrder ord)" using pool by (simp add: enumerates_def)
  then have "finite (dom ?pool)" by simp
  moreover have "?L \<subseteq> dom ?pool" by auto
  ultimately have finL: "finite ?L" by (rule rev_finite_subset)
  then have card0: "(card (dom (liveWorkers ?pool)) = 0) = (?L = {})" using domL by simp
  show ?thesis
  proof (cases "?L = {}")
    case True
    then have "card (dom (liveWorkers ?pool)) = 0" using card0 by simp
    then have "purgeFailedWorkers ord m = (?m1, Some (errorsNew ''no workers left''))"
      using loop by (simp add: purgeFailedWorkers_def Let_def)
    with result have "m' = ?m1" "r = Some (errorsNew ''no workers left'')" by simp_all
    then show ?thesis using True live by auto
  next
    case False
    then have "card (dom (liveWorkers ?pool)) \<noteq> 0" using card0 by simp
    then have "purgeFailedWorkers ord m = (moveAll ord 0 ?fw ?m1, None)"
      using loop by (simp add: purgeFailedWorkers_def Let_def)
    with result have m': "m' = moveAll ord 0 ?fw ?m1" and r: "r = None" by simp_all
    have wp: "workerPool m' = liveWorkers ?pool"
      using m' moveAll_frame [of ?m1 ord 0 ?fw] by simp
    have ids: "moveIds ?fw = filter (isFailed ?pool) (poolOrder ord)"
      using moveIds_failed [OF keys] .
    have pm1: "partitionMap ?m1 = partitionMap m" by simp
    have a1: "\<forall>j. dom (partitionMap ?m1) \<subseteq> set (pidOrder ord j)"
      using pids by (auto simp: enumerates_def)
    have a2: "\<forall>j. set (ownerOrder ord j) = ?L" using others by (simp add: enumerates_def)
    have a4: "\<forall>x\<in>set (moveIds ?fw). x \<notin> ?L"
      unfolding ids by (auto simp: isFailed_def)
    have mv: "dom (partitionMap m') = dom (partitionMap m)
        \<and> (\<forall>pid w. partitionMap m pid = Some w \<longrightarrow>
              (if w \<in> set (moveIds ?fw) then \<exists>w'\<in>?L. partitionMap m' pid = Some w'
               else partitionMap m' pid = Some w))"
      using moveAll_owners [OF a1 a2 False a4, of 0] unfolding m' pm1 .
    have dom: "dom (partitionMap m') = dom (partitionMap m)" using mv by blast
    have moved: "if w \<in> set (moveIds ?fw) then \<exists>w'\<in>?L. partitionMap m' pid = Some w'
        else partitionMap m' pid = Some w" if "partitionMap m pid = Some w" for pid w
      using mv that by blast
    have stable: "partitionMap m' pid = Some w"
      if "partitionMap m pid = Some w" "workerPool m w = Some info" "\<not> failed info" for pid w info
    proof -
      have "w \<notin> set (moveIds ?fw)" unfolding ids using that by (simp add: isFailed_def)
      then show ?thesis using moved [OF that(1)] by simp
    qed
    have owned: "\<exists>info. workerPool m' w = Some info \<and> \<not> failed info"
      if "partitionMap m' pid = Some w" for pid w
    proof -
      from that dom obtain w0 where w0: "partitionMap m pid = Some w0" by (auto simp: dom_def)
      have "w \<in> ?L"
      proof (cases "w0 \<in> set (moveIds ?fw)")
        case True
        then show ?thesis using moved [OF w0] that by auto
      next
        case False
        then have "w = w0" using moved [OF w0] that by simp
        moreover have "w0 \<in> dom ?pool" using owners w0 by blast
        moreover have "\<not> isFailed ?pool w0"
          using False pool \<open>w0 \<in> dom ?pool\<close> unfolding ids by (auto simp: enumerates_def)
        ultimately show ?thesis by (auto simp: isFailed_def)
      qed
      then show ?thesis unfolding wp using domL by (auto simp: liveWorkers_def isFailed_def split: if_splits)
    qed
    show ?thesis using False r wp live dom owned stable by (simp only: ) blast
  qed
qed


theorem purgeFailedWorkers_reassigns_witness:
  "snd (purgeFailedWorkers failingOrders failingMaster) = None
   \<and> dom (partitionMap (fst (purgeFailedWorkers failingOrders failingMaster))) = {0, 1, 2, 3}
   \<and> partitionMap (fst (purgeFailedWorkers failingOrders failingMaster)) 0 = Some ''a:1''
   \<and> dom (workerPool (fst (purgeFailedWorkers failingOrders failingMaster))) = {''a:1''}"
proof -
  let ?m = failingMaster
  have pool: "workerPool ?m = [''a:1'' \<mapsto> sampleWorker ''a'', ''b:1'' \<mapsto> (sampleWorker ''b'')\<lparr>failed := True\<rparr>]"
    by (simp add: failingMaster_def samplePool_def)
  have pm: "partitionMap ?m = [0 \<mapsto> ''a:1'', 1 \<mapsto> ''b:1'', 2 \<mapsto> ''a:1'', 3 \<mapsto> ''b:1'']"
    by (simp add: failingMaster_def sampleMaster_def samplePartitions_def)
  have keys: "\<forall>hp info. workerPool ?m hp = Some info \<longrightarrow> JoinHostPort (host info) (port info) = hp"
    unfolding pool by (auto simp: sampleWorker_def JoinHostPort_def split: if_splits)
  have owners: "\<forall>pid w. partitionMap ?m pid = Some w \<longrightarrow> w \<in> dom (workerPool ?m)"
    unfolding pool pm by (auto split: if_splits)
  have live: "{hp. \<exists>info. workerPool ?m hp = Some info \<and> \<not> failed info} = {''a:1''}"
    unfolding pool by (auto simp: sampleWorker_def split: if_splits)
  have o1: "enumerates (poolOrder failingOrders) (dom (workerPool ?m))"
    unfolding pool by (auto simp: enumerates_def failingOrders_def)
  have o2: "\<forall>i. enumerates (ownerOrder failingOrders i)
                         {hp. \<exists>info. workerPool ?m hp = Some info \<and> \<not> failed info}"
    unfolding live by (simp add: enumerates_def failingOrders_def)
  have o3: "\<forall>i. enumerates (pidOrder failingOrders i) (dom (partitionMap ?m))"
    unfolding pm by (auto simp: enumerates_def failingOrders_def)
  have a: "workerPool ?m ''a:1'' = Some (sampleWorker ''a'')" "\<not> failed (sampleWorker ''a'')"
    "partitionMap ?m 0 = Some ''a:1''" "dom (partitionMap ?m) = {0, 1, 2, 3}"
    unfolding pool pm by (auto simp: sampleWorker_def)
  have d: "dom (\<lambda>hp. case workerPool ?m hp of None \<Rightarrow> None
                  | Some info \<Rightarrow> if failed info then None else Some info) = {''a:1''}"
    unfolding pool by (auto simp: sampleWorker_def split: if_splits)
  from purgeFailedWorkers_reassigns [OF keys owners o1 o2 o3 surjective_pairing] a d
  show ?thesis by (simp only: ) blast
qed

section \<open>The initial assignment of partitions\<close>

lemma of_nat_inj64:
  assumes "a < 2 ^ 64" "b < 2 ^ 64" "(of_nat a :: 64 word) = of_nat b"
  shows "a = b"
proof -
  have "unat (of_nat b :: 64 word) = b" using assms(2) by (intro of_nat_inverse [OF refl]) simp
  moreover have "unat (of_nat b :: 64 word) = a" using assms(1,3) by (intro of_nat_inverse) simp_all
  ultimately show ?thesis by simp
qed

lemma sint_nonneg_unat:
  assumes "0 \<le> sint (K :: 64 word)"
  shows "nat (sint K) = unat K"
proof -
  have "sint K < 2 ^ 63" using sint_less [of K] by simp
  then have "sint K < 2 ^ 64" by simp
  then have "take_bit 64 (sint K) = sint K" using assms by (simp add: take_bit_int_eq_self)
  then have "uint K = sint K" using uint_sint [of K] by simp
  then show ?thesis by (simp add: unat_eq_nat_uint)
qed

lemma assignPass_fst: "fst (assignPass ks (p, pm)) = p + length ks"
  by (induction ks arbitrary: p pm) simp_all

lemma assignPass_Cons:
  "assignPass (hp # ks) (p, pm) = assignPass ks (p + 1, pm(of_nat p \<mapsto> hp))"
  by simp

lemma assignPass_other:
  "(\<forall>j<length ks. x \<noteq> of_nat (p + j)) \<Longrightarrow> snd (assignPass ks (p, pm)) x = pm x"
proof (induction ks arbitrary: p pm)
  case Nil
  show ?case by simp
next
  case (Cons hp ks)
  have x: "x \<noteq> of_nat p" using Cons.prems [rule_format, of 0] by simp
  have "\<forall>j<length ks. x \<noteq> of_nat (p + 1 + j)"
  proof (intro allI impI)
    fix j assume "j < length ks"
    then show "x \<noteq> of_nat (p + 1 + j)" using Cons.prems [rule_format, of "Suc j"] by simp
  qed
  then have "snd (assignPass ks (p + 1, pm(of_nat p \<mapsto> hp))) x = (pm(of_nat p \<mapsto> hp)) x"
    by (rule Cons.IH)
  also have "\<dots> = pm x" using x by simp
  finally show ?case unfolding assignPass_Cons .
qed

lemma assignPass_at:
  "p + length ks \<le> 2 ^ 64 \<Longrightarrow> j < length ks \<Longrightarrow>
   snd (assignPass ks (p, pm)) (of_nat (p + j)) = Some (ks ! j)"
proof (induction ks arbitrary: p pm j)
  case Nil
  then show ?case by simp
next
  case (Cons hp ks)
  show ?case
  proof (cases j)
    case 0
    have "\<forall>i<length ks. (of_nat p :: uint64) \<noteq> of_nat (p + 1 + i)"
    proof (intro allI impI notI)
      fix i assume "i < length ks" "(of_nat p :: uint64) = of_nat (p + 1 + i)"
      then have "p = p + 1 + i" using Cons.prems(1) by (intro of_nat_inj64) auto
      then show False by simp
    qed
    then have "snd (assignPass ks (p + 1, pm(of_nat p \<mapsto> hp))) (of_nat p)
        = (pm(of_nat p \<mapsto> hp)) (of_nat p)"
      by (rule assignPass_other)
    also have "\<dots> = Some ((hp # ks) ! 0)" by simp
    finally show ?thesis unfolding assignPass_Cons 0 by simp
  next
    case (Suc j')
    have e: "p + 1 + j' = p + j" "ks ! j' = (hp # ks) ! j" using Suc by simp_all
    have "snd (assignPass ks (p + 1, pm(of_nat p \<mapsto> hp))) (of_nat (p + 1 + j')) = Some (ks ! j')"
      using Cons.prems Suc by (intro Cons.IH) auto
    then show ?thesis unfolding assignPass_Cons e .
  qed
qed

lemma assignPass_dom:
  "dom (snd (assignPass ks (p, pm))) = dom pm \<union> of_nat ` {p..<p + length ks}"
proof (induction ks arbitrary: p pm)
  case Nil
  show ?case by simp
next
  case (Cons hp ks)
  have "dom (snd (assignPass ks (p + 1, pm(of_nat p \<mapsto> hp))))
      = dom (pm(of_nat p \<mapsto> hp)) \<union> of_nat ` {p + 1..<p + 1 + length ks}"
    by (rule Cons.IH)
  also have "\<dots> = dom pm \<union> of_nat ` (insert p {p + 1..<p + 1 + length ks})" by simp
  also have "insert p {p + 1..<p + 1 + length ks} = {p..<p + length (hp # ks)}" by auto
  finally show ?case unfolding assignPass_Cons .
qed

lemma passes_Suc: "passes passOrder (Suc n) = assignPass (passOrder n) (passes passOrder n)"
  by (simp add: passes_def)

lemma passes_invariant:
  assumes "\<forall>i<n. length (passOrder i) = W" "n * W \<le> 2 ^ 64" "0 < W"
  shows "fst (passes passOrder n) = n * W
     \<and> dom (snd (passes passOrder n)) = of_nat ` {0..<n * W}
     \<and> (\<forall>q<n * W. snd (passes passOrder n) (of_nat q) = Some (roundRobin passOrder W q))"
  using assms
proof (induction n)
  case 0
  show ?case by (simp add: passes_def)
next
  case (Suc n)
  obtain p pm where P: "passes passOrder n = (p, pm)" by (cases "passes passOrder n")
  have len: "length (passOrder n) = W" using Suc.prems(1) by simp
  have le: "n * W + W \<le> 2 ^ 64" using Suc.prems(2) by (simp add: algebra_simps)
  then have "n * W \<le> 2 ^ 64" by simp
  then have IH: "p = n * W" "dom pm = of_nat ` {0..<n * W}"
    "\<forall>q<n * W. pm (of_nat q) = Some (roundRobin passOrder W q)"
    using Suc.IH Suc.prems(1,3) P by simp_all
  have S: "passes passOrder (Suc n) = assignPass (passOrder n) (n * W, pm)"
    using P IH(1) by (simp add: passes_Suc)
  have 1: "fst (passes passOrder (Suc n)) = Suc n * W"
    unfolding S using len by (simp add: assignPass_fst)
  have "{0..<n * W} \<union> {n * W..<n * W + W} = {0..<Suc n * W}" by auto
  then have 2: "dom (snd (passes passOrder (Suc n))) = of_nat ` {0..<Suc n * W}"
    unfolding S assignPass_dom using IH(2) len by (simp add: image_Un [symmetric])
  have 3: "snd (passes passOrder (Suc n)) (of_nat q) = Some (roundRobin passOrder W q)"
    if q: "q < Suc n * W" for q
  proof (cases "q < n * W")
    case True
    have "\<forall>j<length (passOrder n). (of_nat q :: uint64) \<noteq> of_nat (n * W + j)"
    proof (intro allI impI notI)
      fix j assume "j < length (passOrder n)" "(of_nat q :: uint64) = of_nat (n * W + j)"
      then have "q = n * W + j" using le len True by (intro of_nat_inj64) auto
      then show False using True by simp
    qed
    then have "snd (assignPass (passOrder n) (n * W, pm)) (of_nat q) = pm (of_nat q)"
      by (rule assignPass_other)
    then show ?thesis unfolding S using IH(3) True by simp
  next
    case False
    define j where "j = q - n * W"
    have j: "q = n * W + j" "j < W" using False q by (simp_all add: j_def)
    have "snd (assignPass (passOrder n) (n * W, pm)) (of_nat (n * W + j)) = Some (passOrder n ! j)"
      using le len j(2) by (intro assignPass_at) auto
    moreover have "(n * W + j) div W = n" "(n * W + j) mod W = j" using j(2) by simp_all
    ultimately show ?thesis unfolding S j(1) by (simp add: roundRobin_def)
  qed
  from 1 2 3 show ?case by blast
qed

lemma roundRobin_count:
  assumes ords: "\<forall>i<k. distinct (passOrder i) \<and> set (passOrder i) = A"
      and w: "w \<in> A" and W: "W = card A"
  shows "card {q. q < k * W \<and> roundRobin passOrder W q = w} = k"
proof -
  have len: "length (passOrder i) = W" if "i < k" for i
  proof -
    have "distinct (passOrder i)" "set (passOrder i) = A" using ords that by simp_all
    then show ?thesis using W distinct_card [of "passOrder i"] by simp
  qed
  have "\<forall>i\<in>{..<k}. \<exists>j. j < W \<and> passOrder i ! j = w"
  proof
    fix i assume "i \<in> {..<k}"
    then have i: "i < k" by simp
    then have "w \<in> set (passOrder i)" using ords w by simp
    then obtain j where "j < length (passOrder i)" "passOrder i ! j = w"
      unfolding in_set_conv_nth by blast
    then show "\<exists>j. j < W \<and> passOrder i ! j = w" using len [OF i] by blast
  qed
  then obtain f where f: "\<forall>i\<in>{..<k}. f i < W \<and> passOrder i ! f i = w"
    using bchoice [of "{..<k}" "\<lambda>i j. j < W \<and> passOrder i ! j = w"] by blast
  have fW: "f i < W" and fw: "passOrder i ! f i = w" if "i < k" for i
    using f that by simp_all
  have "{q. q < k * W \<and> roundRobin passOrder W q = w} = (\<lambda>i. i * W + f i) ` {..<k}"
  proof (intro set_eqI iffI)
    fix q assume "q \<in> {q. q < k * W \<and> roundRobin passOrder W q = w}"
    then have q: "q < k * W" "passOrder (q div W) ! (q mod W) = w"
      by (simp_all add: roundRobin_def)
    have pos: "0 < W" using q(1) by (cases W) simp_all
    have i: "q div W < k" using q(1) by (rule less_mult_imp_div_less)
    have j: "q mod W < W" using pos by simp
    have d: "distinct (passOrder (q div W))" using ords i by simp
    have "passOrder (q div W) ! f (q div W) = passOrder (q div W) ! (q mod W)"
      using fw [OF i] q(2) by simp
    then have "f (q div W) = q mod W"
      using nth_eq_iff_index_eq [OF d, of "f (q div W)" "q mod W"] fW [OF i] j len [OF i]
      by simp
    then have "q = (q div W) * W + f (q div W)" by simp
    then show "q \<in> (\<lambda>i. i * W + f i) ` {..<k}" using i by blast
  next
    fix q assume "q \<in> (\<lambda>i. i * W + f i) ` {..<k}"
    then obtain i where i: "i < k" "q = i * W + f i" by auto
    have "i * W + f i < Suc i * W" using fW [OF i(1)] by simp
    also have "\<dots> \<le> k * W" using i(1) by (intro mult_le_mono1) simp
    finally have "q < k * W" using i(2) by simp
    moreover have "q div W = i" "q mod W = f i" using i(2) fW [OF i(1)] by simp_all
    ultimately show "q \<in> {q. q < k * W \<and> roundRobin passOrder W q = w}"
      using fw [OF i(1)] by (simp add: roundRobin_def)
  qed
  moreover have "inj_on (\<lambda>i. i * W + f i) {..<k}"
  proof (rule inj_onI)
    fix i i' assume a: "i \<in> {..<k}" "i' \<in> {..<k}" "i * W + f i = i' * W + f i'"
    then have "f i < W" "f i' < W" using fW by simp_all
    then have e: "(i * W + f i) div W = i" "(i' * W + f i') div W = i'" by simp_all
    have "(i * W + f i) div W = (i' * W + f i') div W" by (simp only: a(3))
    then show "i = i'" unfolding e .
  qed
  ultimately show ?thesis by (simp add: card_image)
qed

text \<open>
  C9, as amended.  Let \<open>k\<close> be \<open>MinPartitionsPerWorker\<close> and \<open>W\<close> the size of the
  pool, which is not empty; let \<open>int(k)\<close> not be negative, that is \<open>k < 2 ^ 63\<close>,
  and \<open>k * W \<le> 2 ^ 64\<close>, so that the partition ids do not wrap around; let every
  pass run over the pool.  Then the keys of the partition map that
  \<open>determinePartitions\<close> makes are the integers from 0 up to, but not including,
  \<open>k * W\<close>; partition \<open>q\<close> belongs to the worker that pass \<open>q div W\<close> met at
  position \<open>q mod W\<close>; and every worker of the pool owns exactly \<open>k\<close> partitions.
\<close>

theorem determinePartitions_round_robin:
  assumes nonneg: "0 \<le> sint (MinPartitionsPerWorker (Config m))"
      and ords: "\<forall>i. enumerates (passOrder i) (dom (workerPool m))"
      and nonempty: "dom (workerPool m) \<noteq> {}"
      and fits: "unat (MinPartitionsPerWorker (Config m)) * card (dom (workerPool m)) \<le> 2 ^ 64"
  shows "unat ` dom (partitionMap (determinePartitions passOrder m))
           = {0..<unat (MinPartitionsPerWorker (Config m)) * card (dom (workerPool m))}
     \<and> (\<forall>q<unat (MinPartitionsPerWorker (Config m)) * card (dom (workerPool m)).
           partitionMap (determinePartitions passOrder m) (of_nat q)
             = Some (passOrder (q div card (dom (workerPool m))) ! (q mod card (dom (workerPool m)))))
     \<and> (\<forall>w\<in>dom (workerPool m).
           card {pid. partitionMap (determinePartitions passOrder m) pid = Some w}
             = unat (MinPartitionsPerWorker (Config m)))"
proof -
  let ?k = "unat (MinPartitionsPerWorker (Config m))"
  let ?A = "dom (workerPool m)"
  let ?W = "card ?A"
  let ?pm = "partitionMap (determinePartitions passOrder m)"
  have pm: "?pm = snd (passes passOrder ?k)"
    using sint_nonneg_unat [OF nonneg] by (simp add: determinePartitions_def passes_def)
  have "?A = set (passOrder 0)" using ords by (simp add: enumerates_def)
  then have "finite ?A" by simp
  then have pos: "0 < ?W" using nonempty by (simp add: card_gt_0_iff)
  have len: "\<forall>i<?k. length (passOrder i) = ?W"
  proof (intro allI impI)
    fix i
    have "distinct (passOrder i)" "set (passOrder i) = ?A"
      using ords by (simp_all add: enumerates_def)
    then show "length (passOrder i) = ?W" using distinct_card [of "passOrder i"] by simp
  qed
  note inv = passes_invariant [OF len fits pos, folded pm]
  have inj: "inj_on (of_nat :: nat \<Rightarrow> uint64) {0..<?k * ?W}"
  proof (rule inj_onI)
    fix a b assume "a \<in> {0..<?k * ?W}" "b \<in> {0..<?k * ?W}" "(of_nat a :: uint64) = of_nat b"
    then show "a = b" using fits by (intro of_nat_inj64) auto
  qed
  have un: "unat (of_nat q :: uint64) = q" if "q < ?k * ?W" for q
    using that fits by (intro of_nat_inverse [OF refl]) simp
  have 1: "unat ` dom ?pm = {0..<?k * ?W}"
  proof -
    have "unat ` dom ?pm = (\<lambda>q. unat (of_nat q :: uint64)) ` {0..<?k * ?W}"
      using inv by (simp add: image_image)
    also have "\<dots> = (\<lambda>q. q) ` {0..<?k * ?W}" using un by (intro image_cong) auto
    finally show ?thesis by simp
  qed
  have 2: "\<forall>q<?k * ?W. ?pm (of_nat q) = Some (passOrder (q div ?W) ! (q mod ?W))"
    using inv by (simp add: roundRobin_def)
  have 3: "card {pid. ?pm pid = Some w} = ?k" if w: "w \<in> ?A" for w
  proof -
    have "{pid. ?pm pid = Some w}
        = (of_nat :: nat \<Rightarrow> uint64) ` {q. q < ?k * ?W \<and> roundRobin passOrder ?W q = w}"
    proof (intro set_eqI iffI)
      fix pid :: uint64 assume "pid \<in> {pid. ?pm pid = Some w}"
      then have p: "?pm pid = Some w" by simp
      then have "pid \<in> dom ?pm" by blast
      then obtain q where q: "q < ?k * ?W" "pid = of_nat q" using inv by auto
      then have "roundRobin passOrder ?W q = w" using inv p by auto
      then show "pid \<in> of_nat ` {q. q < ?k * ?W \<and> roundRobin passOrder ?W q = w}"
        using q by blast
    next
      fix pid :: uint64 assume "pid \<in> of_nat ` {q. q < ?k * ?W \<and> roundRobin passOrder ?W q = w}"
      then obtain q where "q < ?k * ?W" "roundRobin passOrder ?W q = w" "pid = of_nat q" by auto
      then show "pid \<in> {pid. ?pm pid = Some w}" using inv by auto
    qed
    moreover have "inj_on (of_nat :: nat \<Rightarrow> uint64) {q. q < ?k * ?W \<and> roundRobin passOrder ?W q = w}"
      using inj by (rule inj_on_subset) auto
    moreover have "card {q. q < ?k * ?W \<and> roundRobin passOrder ?W q = w} = ?k"
      using ords w by (intro roundRobin_count) (auto simp: enumerates_def)
    ultimately show ?thesis by (simp add: card_image)
  qed
  from 1 2 3 show ?thesis by blast
qed

text \<open>
  The claim as it stands is about every value of \<open>MinPartitionsPerWorker\<close>.  For
  \<open>2 ^ 63\<close> the bound \<open>int(m.Config.MinPartitionsPerWorker)\<close> of the loop is
  negative and no partition is assigned at all.
\<close>

theorem determinePartitions_none_for_large_count:
  "dom (partitionMap (determinePartitions (\<lambda>i. [''a:1'', ''b:1''])
          (sampleMaster\<lparr>Config := sampleConfig\<lparr>MinPartitionsPerWorker := 9223372036854775808\<rparr>\<rparr>))) = {}
   \<and> 0 < unat (9223372036854775808 :: uint64) * card (dom (workerPool sampleMaster))"
  by (simp add: determinePartitions_def sampleMaster_def samplePool_def)

theorem determinePartitions_round_robin_witness:
  "unat ` dom (partitionMap (determinePartitions (\<lambda>i. if even i then [''a:1'', ''b:1''] else [''b:1'', ''a:1'']) sampleMaster))
     = {0..<4}
   \<and> card {pid. partitionMap (determinePartitions (\<lambda>i. if even i then [''a:1'', ''b:1''] else [''b:1'', ''a:1'']) sampleMaster) pid
             = Some ''a:1''} = 2
   \<and> partitionMap (determinePartitions (\<lambda>i. if even i then [''a:1'', ''b:1''] else [''b:1'', ''a:1'']) sampleMaster) 3 = Some ''a:1''"
proof -
  let ?po = "\<lambda>i::nat. if even i then [''a:1'', ''b:1''] else [''b:1'', ''a:1'']"
  have k: "MinPartitionsPerWorker (Config sampleMaster) = 2"
    by (simp add: sampleMaster_def sampleConfig_def)
  have A: "dom (workerPool sampleMaster) = {''a:1'', ''b:1''}"
    by (auto simp: sampleMaster_def samplePool_def)
  have W: "card (dom (workerPool sampleMaster)) = 2" unfolding A by simp
  have h1: "0 \<le> sint (MinPartitionsPerWorker (Config sampleMaster))" unfolding k by simp
  have h2: "\<forall>i. enumerates (?po i) (dom (workerPool sampleMaster))"
    unfolding A by (auto simp: enumerates_def)
  have h3: "dom (workerPool sampleMaster) \<noteq> {}" unfolding A by simp
  have h4: "unat (MinPartitionsPerWorker (Config sampleMaster)) * card (dom (workerPool sampleMaster)) \<le> 2 ^ 64"
    unfolding k W by simp
  have u: "unat (2 :: uint64) = 2" by simp
  note t = determinePartitions_round_robin [OF h1 h2 h3 h4, unfolded k W u]
  let ?pm = "partitionMap (determinePartitions ?po sampleMaster)"
  from t have "unat ` dom ?pm = {0..<2 * 2}" by (rule conjunct1)
  then have c1: "unat ` dom ?pm = {0..<4}" by simp
  from t have "\<forall>q<2 * 2. ?pm (of_nat q) = Some (?po (q div 2) ! (q mod 2))"
    by (rule conjunct1 [OF conjunct2])
  then have "(3::nat) < 2 * 2 \<longrightarrow> ?pm (of_nat 3) = Some (?po (3 div 2) ! (3 mod 2))" by (rule spec)
  then have c2: "?pm 3 = Some ''a:1''" by simp
  from t have "\<forall>w\<in>dom (workerPool sampleMaster). card {pid. ?pm pid = Some w} = 2"
    by (rule conjunct2 [OF conjunct2])
  moreover have "''a:1'' \<in> dom (workerPool sampleMaster)" unfolding A by simp
  ultimately have c3: "card {pid. ?pm pid = Some ''a:1''} = 2" by (rule bspec)
  from c1 c2 c3 show ?thesis by (intro conjI)
qed

end
